theory Spec2Isabelle
  imports Complex_Main
begin

section \<open>Strings of the browser\<close>

text \<open>
  The admin panel is one script, \<^verbatim>\<open>static/js/main.js\<close>. Its strings are modelled as
  \<^typ>\<open>string\<close>: a character is one code unit in the range 0 to 255, which holds every
  character the script itself tests for (pipe, dash, colon, asterisk, the line feed, the
  markup characters). Code units above 255 are outside the model.
\<close>

definition js_whitespace :: "char \<Rightarrow> bool" where
  \<comment> \<open>the class \<^verbatim>\<open>\s\<close> of a regular expression, which is also what \<^verbatim>\<open>trim()\<close> strips:
      tab, line feed, vertical tab, form feed, carriage return, space, no-break space\<close>
  "js_whitespace c =
     (c \<in> set [CHR 0x09, CHR 0x0A, CHR 0x0B, CHR 0x0C, CHR 0x0D, CHR 0x20, CHR 0xA0])"

definition regex_dot :: "char \<Rightarrow> bool" where
  \<comment> \<open>the class \<^verbatim>\<open>.\<close> of a regular expression without the s flag: anything but a line
      terminator\<close>
  "regex_dot c = (c \<notin> set [CHR 0x0A, CHR 0x0D])"

definition js_trim :: "string \<Rightarrow> string" where
  "js_trim s = rev (dropWhile js_whitespace (rev (dropWhile js_whitespace s)))"

fun js_split :: "char \<Rightarrow> string \<Rightarrow> string list" where
  \<comment> \<open>\<^verbatim>\<open>s.split(d)\<close> for a one-character separator; the empty string gives one empty piece\<close>
  "js_split d [] = [[]]"
| "js_split d (c # cs) =
     (if c = d then [] # js_split d cs
      else (case js_split d cs of [] \<Rightarrow> [[c]] | x # xs \<Rightarrow> (c # x) # xs))"

fun js_join :: "string \<Rightarrow> string list \<Rightarrow> string" where
  \<comment> \<open>\<^verbatim>\<open>xs.join(sep)\<close>\<close>
  "js_join sep [] = []"
| "js_join sep [x] = x"
| "js_join sep (x # y # ys) = x @ sep @ js_join sep (y # ys)"

definition js_slice_inner :: "'a list \<Rightarrow> 'a list" where
  \<comment> \<open>\<^verbatim>\<open>xs.slice(1, -1)\<close>: the elements at the indices 1 to length - 2\<close>
  "js_slice_inner xs = butlast (tl xs)"

definition js_nth :: "'a list \<Rightarrow> nat \<Rightarrow> 'a option" where
  \<comment> \<open>\<^verbatim>\<open>xs[i]\<close>; out of range it is \<^verbatim>\<open>undefined\<close>, here \<^const>\<open>None\<close>, and a method
      call on it throws a TypeError\<close>
  "js_nth xs i = (if i < length xs then Some (xs ! i) else None)"

definition js_or_empty :: "string option \<Rightarrow> string" where
  \<comment> \<open>\<^verbatim>\<open>raw || ''\<close>, with \<^const>\<open>None\<close> for null and undefined\<close>
  "js_or_empty raw = (case raw of None \<Rightarrow> [] | Some r \<Rightarrow> r)"

section \<open>The chat formatter\<close>

fun escape_char :: "char \<Rightarrow> string" where
  \<comment> \<open>how the browser serialises one character of a text node\<close>
  "escape_char c =
     (if c = CHR ''&'' then ''&amp;''
      else if c = CHR ''<'' then ''&lt;''
      else if c = CHR ''>'' then ''&gt;''
      else if c = CHR 0xA0 then ''&nbsp;''
      else [c])"

definition escapeHtml :: "string option \<Rightarrow> string" where
  \<comment> \<open>\<^verbatim>\<open>if (s == null) return ''\<close>; otherwise the text is stored in a fresh element as
      its text content and read back as markup\<close>
  "escapeHtml s = (case s of None \<Rightarrow> [] | Some t \<Rightarrow> concat (map escape_char t))"

definition not_star :: "char \<Rightarrow> bool" where
  "not_star c = (c \<noteq> CHR ''*'')"

function bold_replace :: "string \<Rightarrow> string" where
  \<comment> \<open>\<^verbatim>\<open>s.replace(/\*\*([^*]+)\*\*/g, '<strong>$1</strong>')\<close>: from left to right, two
      asterisks, the longest run of other characters (not empty), two asterisks; the search
      goes on after the match\<close>
  "bold_replace [] = []"
| "bold_replace (c # cs) =
     (if c = CHR ''*'' \<and> take 1 cs = ''*'' \<and> takeWhile not_star (drop 1 cs) \<noteq> []
         \<and> take 2 (dropWhile not_star (drop 1 cs)) = ''**''
      then ''<strong>'' @ takeWhile not_star (drop 1 cs) @ ''</strong>''
             @ bold_replace (drop 2 (dropWhile not_star (drop 1 cs)))
      else c # bold_replace cs)"
  by pat_completeness auto
termination
proof (relation "measure length")
  show "wf (measure length)" by simp
next
  fix c :: char and cs :: string
  have "length (dropWhile not_star (drop 1 cs)) \<le> length (drop 1 cs)"
    by (rule length_dropWhile_le)
  then show "(drop 2 (dropWhile not_star (drop 1 cs)), c # cs) \<in> measure length"
    by simp
next
  fix c :: char and cs :: string
  show "(cs, c # cs) \<in> measure length" by simp
qed

definition table_row_match :: "string \<Rightarrow> bool" where
  \<comment> \<open>\<^verbatim>\<open>line.match(/^\|.+\|$/)\<close>\<close>
  "table_row_match l =
     (case l of [] \<Rightarrow> False
      | c # r \<Rightarrow> c = CHR ''|'' \<and>
          (case rev r of [] \<Rightarrow> False
           | d # m \<Rightarrow> d = CHR ''|'' \<and> m \<noteq> [] \<and> list_all regex_dot m))"

definition separator_char :: "char \<Rightarrow> bool" where
  \<comment> \<open>the class \<^verbatim>\<open>[\-\:|]\<close>\<close>
  "separator_char c = (c \<in> set ''-:|'')"

definition separator_match :: "string \<Rightarrow> bool" where
  \<comment> \<open>\<^verbatim>\<open>t.match(/^\|[\-\:|]+\|$/)\<close>\<close>
  "separator_match t =
     (case t of [] \<Rightarrow> False
      | c # r \<Rightarrow> c = CHR ''|'' \<and>
          (case rev r of [] \<Rightarrow> False
           | d # m \<Rightarrow> d = CHR ''|'' \<and> m \<noteq> [] \<and> list_all separator_char m))"

definition remove_whitespace :: "string \<Rightarrow> string" where
  \<comment> \<open>\<^verbatim>\<open>t.replace(/\s/g, '')\<close>\<close>
  "remove_whitespace t = filter (\<lambda>c. \<not> js_whitespace c) t"

definition skip_sep :: "string list \<Rightarrow> bool option" where
  \<comment> \<open>\<^verbatim>\<open>tableRows.length >= 2 && tableRows[1].replace(/\s/g, '').match(...)\<close>, as a truth
      value\<close>
  "skip_sep tableRows =
     (if 2 \<le> length tableRows
      then (case js_nth tableRows 1 of None \<Rightarrow> None
            | Some row \<Rightarrow> Some (separator_match (remove_whitespace row)))
      else Some False)"

definition row_cells :: "string \<Rightarrow> string list" where
  \<comment> \<open>\<^verbatim>\<open>row.split('|').slice(1, -1).map(function (c) { return c.trim(); })\<close>\<close>
  "row_cells row = map js_trim (js_slice_inner (js_split (CHR ''|'') row))"

function cells_loop :: "string list \<Rightarrow> string \<Rightarrow> nat \<Rightarrow> string \<Rightarrow> string" where
  \<comment> \<open>the loop over \<^verbatim>\<open>c\<close>; a missing cell would be concatenated as the text
      \<^verbatim>\<open>undefined\<close>\<close>
  "cells_loop cells tag c tableHtml =
     (if c < length cells
      then cells_loop cells tag (Suc c)
             (tableHtml @ ''<'' @ tag @ ''>''
                @ (case js_nth cells c of None \<Rightarrow> ''undefined'' | Some x \<Rightarrow> x)
                @ ''</'' @ tag @ ''>'')
      else tableHtml)"
  by pat_completeness auto
termination
  by (relation "measure (\<lambda>(cells, tag, c, tableHtml). length cells - c)") auto

function rows_loop :: "string list \<Rightarrow> bool \<Rightarrow> nat \<Rightarrow> string \<Rightarrow> string option" where
  \<comment> \<open>the loop over \<^verbatim>\<open>r\<close>, with its \<^verbatim>\<open>continue\<close> at the separator row\<close>
  "rows_loop tableRows skipSep r tableHtml =
     (if r < length tableRows
      then (if skipSep \<and> r = 1 then rows_loop tableRows skipSep (Suc r) tableHtml
            else (case js_nth tableRows r of None \<Rightarrow> None
                  | Some row \<Rightarrow>
                      rows_loop tableRows skipSep (Suc r)
                        (cells_loop (row_cells row) (if r = 0 \<and> skipSep then ''th'' else ''td'') 0
                           (tableHtml @ ''<tr>'') @ ''</tr>'')))
      else Some tableHtml)"
  by pat_completeness auto
termination
  by (relation "measure (\<lambda>(tableRows, skipSep, r, tableHtml). length tableRows - r)") auto

function table_run :: "string list \<Rightarrow> nat \<Rightarrow> string list \<Rightarrow> (string list \<times> nat) option" where
  \<comment> \<open>the inner \<^verbatim>\<open>while\<close>: collects the rows from line \<^verbatim>\<open>i\<close> on and returns them with
      the index of the first line after them\<close>
  "table_run lines i tableRows =
     (if i < length lines
      then (case js_nth lines i of None \<Rightarrow> None
            | Some l \<Rightarrow>
                if table_row_match l then table_run lines (Suc i) (tableRows @ [l])
                else Some (tableRows, i))
      else Some (tableRows, i))"
  by pat_completeness auto
termination
  by (relation "measure (\<lambda>(lines, i, tableRows). length lines - i)") auto

definition table_open :: string where
  \<open>table_open = ''<table class="chat-table">''\<close>

definition table_html :: "string list \<Rightarrow> string option" where
  \<comment> \<open>the markup of one captured block\<close>
  "table_html tableRows =
     (case skip_sep tableRows of None \<Rightarrow> None
      | Some skipSep \<Rightarrow>
          (case rows_loop tableRows skipSep 0 table_open of None \<Rightarrow> None
           | Some tableHtml \<Rightarrow> Some (tableHtml @ ''</table>'')))"

function scan_lines :: "string list \<Rightarrow> nat \<Rightarrow> string list \<Rightarrow> string list option" where
  \<comment> \<open>the outer \<^verbatim>\<open>while\<close> of \<^verbatim>\<open>formatAiMessage\<close>: \<^verbatim>\<open>out\<close> receives a table for each
      block of rows and every other line as it is. The step after a block goes to the index
      the inner loop stopped at, which is past \<^verbatim>\<open>i\<close> because line \<^verbatim>\<open>i\<close> is a row.\<close>
  "scan_lines lines i out =
     (if i < length lines
      then (case js_nth lines i of None \<Rightarrow> None
            | Some l \<Rightarrow>
                if table_row_match l
                then (case table_run lines i [] of None \<Rightarrow> None
                      | Some (tableRows, j) \<Rightarrow>
                          (case table_html tableRows of None \<Rightarrow> None
                           | Some tableHtml \<Rightarrow> scan_lines lines j (out @ [tableHtml])))
                else scan_lines lines (Suc i) (out @ [l]))
      else Some out)"
  by pat_completeness auto
termination
proof (relation "measure (\<lambda>(lines, i, out). length lines - i)")
  show "wf (measure (\<lambda>(lines, i, out). length lines - i))" by simp
next
  fix lines :: "string list" and i :: nat and out :: "string list" and l :: string
    and p :: "string list \<times> nat" and tableRows :: "string list" and j :: nat
    and tableHtml :: string
  assume i: "i < length lines" and l: "js_nth lines i = Some l" and m: "table_row_match l"
    and run: "table_run lines i [] = Some p" and p: "(tableRows, j) = p"
  have mono: "table_run ls k acc = Some (rows, n) \<Longrightarrow> k \<le> n \<and> n \<le> max k (length ls)"
    for ls k acc rows n
  proof (induction ls k acc rule: table_run.induct)
    case (1 ls k acc)
    show ?case
    proof (cases "k < length ls \<and> table_row_match (ls ! k)")
      case True
      with "1.prems" have "table_run ls (Suc k) (acc @ [ls ! k]) = Some (rows, n)"
        by (simp add: js_nth_def)
      with True "1.IH" [of "ls ! k"] have "Suc k \<le> n \<and> n \<le> max (Suc k) (length ls)"
        by (simp add: js_nth_def)
      with True show ?thesis by auto
    next
      case False
      with "1.prems" have "n = k" by (auto simp: js_nth_def split: if_splits)
      then show ?thesis by simp
    qed
  qed
  from i l m have "table_run lines i [] = table_run lines (Suc i) ([] @ [l])"
    by (subst table_run.simps) (simp add: js_nth_def)
  with run p have "table_run lines (Suc i) ([] @ [l]) = Some (tableRows, j)" by simp
  from mono [OF this] i have "Suc i \<le> j \<and> j \<le> length lines" by auto
  with i show "((lines, j, out @ [tableHtml]), (lines, i, out))
      \<in> measure (\<lambda>(lines, i, out). length lines - i)" by auto
next
  fix lines :: "string list" and i :: nat and out :: "string list" and l :: string
  assume "i < length lines"
  then show "((lines, Suc i, out @ [l]), (lines, i, out))
      \<in> measure (\<lambda>(lines, i, out). length lines - i)" by auto
qed

definition newline_to_br :: "string \<Rightarrow> string" where
  \<comment> \<open>\<^verbatim>\<open>s.replace(/\n/g, '<br>')\<close>\<close>
  "newline_to_br s = concat (map (\<lambda>c. if c = CHR 0x0A then ''<br>'' else [c]) s)"

definition formatAiMessage :: "string option \<Rightarrow> string option" where
  \<comment> \<open>the markup of an assistant message; \<^const>\<open>None\<close> would be a thrown TypeError\<close>
  "formatAiMessage raw =
     (case scan_lines (js_split (CHR 0x0A) (bold_replace (escapeHtml (Some (js_or_empty raw))))) 0 []
      of None \<Rightarrow> None
      | Some out \<Rightarrow> Some (newline_to_br (js_join [CHR 0x0A] out)))"

declare escape_char.simps [simp del] cells_loop.simps [simp del] rows_loop.simps [simp del]
  table_run.simps [simp del] scan_lines.simps [simp del]

subsection \<open>The table of a block, as header and body\<close>

text \<open>
  The script builds markup only. The structure it renders is read off the same tests:
  \<^verbatim>\<open>skipSep\<close> decides whether the first row is a header, and every row that is kept
  gives a list of cells. The closed forms below are proved equal to the loops.
\<close>

definition cell_html :: "string \<Rightarrow> string \<Rightarrow> string" where
  "cell_html tag = (\<lambda>x. ''<'' @ tag @ ''>'' @ x @ ''</'' @ tag @ ''>'')"

definition row_html :: "string \<Rightarrow> string list \<Rightarrow> string" where
  "row_html tag cells = ''<tr>'' @ concat (map (cell_html tag) cells) @ ''</tr>''"

definition render_table :: "string list option \<Rightarrow> string list list \<Rightarrow> string" where
  "render_table header body =
     table_open @ (case header of None \<Rightarrow> [] | Some h \<Rightarrow> row_html ''th'' h)
       @ concat (map (row_html ''td'') body) @ ''</table>''"

definition has_header :: "string list \<Rightarrow> bool" where
  "has_header tableRows = (skip_sep tableRows = Some True)"

definition block_header :: "string list \<Rightarrow> string list option" where
  "block_header tableRows =
     (if has_header tableRows then Some (row_cells (hd tableRows)) else None)"

definition block_body :: "string list \<Rightarrow> string list list" where
  "block_body tableRows =
     map row_cells (if has_header tableRows then drop 2 tableRows else tableRows)"

function blocks :: "string list \<Rightarrow> string list" where
  \<comment> \<open>what \<^const>\<open>scan_lines\<close> appends to \<^verbatim>\<open>out\<close>, by recursion on the lines left\<close>
  "blocks [] = []"
| "blocks (l # ls) =
     (if table_row_match l
      then render_table (block_header (l # takeWhile table_row_match ls))
             (block_body (l # takeWhile table_row_match ls))
           # blocks (dropWhile table_row_match ls)
      else l # blocks ls)"
  by pat_completeness auto
termination
  by (relation "measure length") (auto simp: le_imp_less_Suc length_dropWhile_le)

definition spec_separator_shape :: "string \<Rightarrow> bool" where
  \<comment> \<open>the specification's wording of the separator test: the row, with all whitespace
      removed, consists only of pipes, dashes and colons\<close>
  "spec_separator_shape row = list_all separator_char (remove_whitespace row)"

definition spec_row_shape :: "string \<Rightarrow> bool" where
  \<comment> \<open>the specification's wording of the row test: after trimming, the line begins and ends
      with a pipe and has at least one character between them\<close>
  "spec_row_shape l =
     (3 \<le> length (js_trim l) \<and> hd (js_trim l) = CHR ''|'' \<and> last (js_trim l) = CHR ''|'')"

definition neutral :: "string \<Rightarrow> bool" where
  \<comment> \<open>a piece of text that is not empty and has no pipe and no line terminator\<close>
  "neutral u = (u \<noteq> [] \<and> list_all (\<lambda>c. c \<notin> set [CHR ''|'', CHR 0x0A, CHR 0x0D]) u)"

fun split_acc :: "string \<Rightarrow> string \<Rightarrow> string list" where
  \<comment> \<open>splitting at line feeds with the line begun so far as an accumulator\<close>
  "split_acc a [] = [a]"
| "split_acc a (c # cs) =
     (if c = CHR 0x0A then a # split_acc [] cs else split_acc (a @ [c]) cs)"

subsection \<open>The markup the formatter writes\<close>

text \<open>
  A text is markup over a list of tags when it is made of those tags and of characters other
  than the two angle brackets: every angle bracket in it belongs to one of the tags.
\<close>

inductive markup_over :: "string list \<Rightarrow> string \<Rightarrow> bool" for T :: "string list" where
  mo_empty: "markup_over T []"
| mo_char: "c \<noteq> CHR ''<'' \<Longrightarrow> c \<noteq> CHR ''>'' \<Longrightarrow> markup_over T s \<Longrightarrow> markup_over T (c # s)"
| mo_tag: "t \<in> set T \<Longrightarrow> markup_over T s \<Longrightarrow> markup_over T (t @ s)"

definition strong_tags :: "string list" where
  "strong_tags = [''<strong>'', ''</strong>'']"

definition text_tags :: "string list" where
  "text_tags = ''<br>'' # strong_tags"

definition table_tags :: "string list" where
  "table_tags = [table_open, ''</table>'', ''<tr>'', ''</tr>'', ''<th>'', ''</th>'', ''<td>'', ''</td>'']"

definition tag_like :: "string \<Rightarrow> bool" where
  "tag_like t = (t \<noteq> [] \<and> hd t = CHR ''<'' \<and> last t = CHR ''>''
     \<and> CHR 0x0A \<notin> set t \<and> CHR ''|'' \<notin> set t)"

definition chat_tags :: "string list" where
  "chat_tags = ''<br>'' # table_tags @ strong_tags"

section \<open>The mark-attendance page\<close>

text \<open>
  The page keeps its data in variables of the script (\<^verbatim>\<open>currentMarkSectionId\<close>,
  \<^verbatim>\<open>markAttendanceStudents\<close>, ...) and in the form controls of the document. Both are
  fields of one state record; every handler is a function on it. A request to the server is
  appended to \<open>mark_requests\<close>, a notification to \<open>mark_toasts\<close>. The answer to a request is
  an event of its own (\<open>LoadOk\<close>, \<open>SaveFailed\<close>, ...), since other events of the user may
  come before it.
\<close>

record roster_entry =
  student_id :: int
  roll_no :: string
  name :: string
  status :: string

record student_json =
  json_student_id :: int
  json_roll_no :: string
  json_name :: string
  json_status :: "string option"

datatype request =
    GetAttendance string int string
  | PostAttendance string int string "int list"
  | GetStudents int int string "int option" "string option"
  | GetSections
  | GetRecords int string string int int "string option"

record summary =
  sum_total :: int
  sum_present :: int
  sum_absent :: int

record mark_state =
  markSection :: "int option"
  markDate :: string
  markSession :: string
  markSearch :: string
  currentMarkSectionId :: "int option"
  currentMarkDate :: "string option"
  currentMarkSession :: "string option"
  markAttendanceStudents :: "roster_entry list"
  markEditingMode :: bool
  markSaveBtn_disabled :: bool
  markSaveBtn_saving :: bool
  markWarning_shown :: bool
  markTbody :: "roster_entry list"
  markSummary_shown :: bool
  markSummary :: summary
  mark_toasts :: "(string \<times> string) list"
  mark_requests :: "request list"

definition js_lower_char :: "char \<Rightarrow> char" where
  \<comment> \<open>\<^verbatim>\<open>toLowerCase()\<close> on one code unit below 256\<close>
  "js_lower_char c =
     (let n = (of_char c :: nat)
      in if (65 \<le> n \<and> n \<le> 90) \<or> (192 \<le> n \<and> n \<le> 222 \<and> n \<noteq> 215)
         then char_of (n + 32) else c)"

definition js_lower :: "string \<Rightarrow> string" where
  "js_lower s = map js_lower_char s"

fun js_includes :: "string \<Rightarrow> string \<Rightarrow> bool" where
  \<comment> \<open>\<^verbatim>\<open>s.indexOf(p) >= 0\<close>\<close>
  "js_includes [] p = (p = [])"
| "js_includes (c # cs) p = (take (length p) (c # cs) = p \<or> js_includes cs p)"

definition falsy_id :: "int option \<Rightarrow> bool" where
  \<comment> \<open>\<^verbatim>\<open>!id\<close> for a number or null\<close>
  "falsy_id i = (case i of None \<Rightarrow> True | Some n \<Rightarrow> n = 0)"

definition falsy_str :: "string option \<Rightarrow> bool" where
  \<comment> \<open>\<^verbatim>\<open>!s\<close> for a string or null\<close>
  "falsy_str s = (case s of None \<Rightarrow> True | Some t \<Rightarrow> t = [])"

definition toast :: "string \<Rightarrow> string \<Rightarrow> mark_state \<Rightarrow> mark_state" where
  "toast message type st = st\<lparr>mark_toasts := mark_toasts st @ [(message, type)]\<rparr>"

definition mark_row_shown :: "string \<Rightarrow> roster_entry \<Rightarrow> bool" where
  \<comment> \<open>the test of the filter in \<^verbatim>\<open>renderMarkTable\<close>\<close>
  "mark_row_shown search s =
     (js_includes (js_lower (roll_no s)) search \<or> js_includes (js_lower (name s)) search)"

definition renderMarkTable :: "mark_state \<Rightarrow> mark_state" where
  "renderMarkTable st =
     (let search = js_lower (markSearch st);
          list = (if search \<noteq> [] then filter (mark_row_shown search) (markAttendanceStudents st)
                  else markAttendanceStudents st)
      in st\<lparr>markTbody :=
              map (\<lambda>s. s\<lparr>status := (if status s = [] then ''present'' else status s)\<rparr>) list\<rparr>)"

definition filterMarkTable :: "mark_state \<Rightarrow> mark_state" where
  "filterMarkTable st = renderMarkTable st"

definition updateMarkSummary :: "mark_state \<Rightarrow> mark_state" where
  "updateMarkSummary st =
     (let total = int (length (markAttendanceStudents st));
          present = int (length (filter (\<lambda>s. status s = ''present'') (markAttendanceStudents st)));
          absent = total - present
      in st\<lparr>markSummary_shown := (total \<noteq> 0),
            markSummary := \<lparr>sum_total = total, sum_present = present, sum_absent = absent\<rparr>\<rparr>)"

definition loadMarkAttendance :: "mark_state \<Rightarrow> mark_state" where
  \<comment> \<open>up to the request; the key is read from the form controls\<close>
  "loadMarkAttendance st =
     (case markSection st of
        None \<Rightarrow> toast ''Select section and date.'' ''error'' st
      | Some sectionId \<Rightarrow>
          if sectionId = 0 \<or> markDate st = [] then toast ''Select section and date.'' ''error'' st
          else st\<lparr>currentMarkSectionId := Some sectionId,
                  currentMarkDate := Some (markDate st),
                  currentMarkSession := Some (markSession st),
                  markSaveBtn_disabled := True,
                  mark_requests := mark_requests st
                    @ [GetAttendance (markDate st) sectionId (markSession st)]\<rparr>)"

definition roster_of_json :: "student_json \<Rightarrow> roster_entry" where
  \<comment> \<open>\<^verbatim>\<open>status: s.status || 'present'\<close>\<close>
  "roster_of_json s =
     \<lparr>student_id = json_student_id s, roll_no = json_roll_no s, name = json_name s,
      status = (if falsy_str (json_status s) then ''present'' else the (json_status s))\<rparr>"

definition load_ok :: "student_json list \<Rightarrow> mark_state \<Rightarrow> mark_state" where
  \<comment> \<open>the \<^verbatim>\<open>then\<close> of \<^verbatim>\<open>loadMarkAttendance\<close>, on the students of the answer\<close>
  "load_ok students st =
     (let roster = map roster_of_json students;
          editing = list_ex (\<lambda>s. status s \<noteq> ''present'') roster;
          st1 = st\<lparr>markAttendanceStudents := roster, markEditingMode := editing,
                   markWarning_shown := editing\<rparr>
      in (updateMarkSummary (renderMarkTable st1))\<lparr>markSaveBtn_disabled := False\<rparr>)"

definition load_failed :: "string \<Rightarrow> mark_state \<Rightarrow> mark_state" where
  \<comment> \<open>the \<^verbatim>\<open>catch\<close> of \<^verbatim>\<open>loadMarkAttendance\<close>\<close>
  "load_failed message st = (toast message ''error'' st)\<lparr>markSaveBtn_disabled := False\<rparr>"

fun toggle_first :: "int \<Rightarrow> roster_entry list \<Rightarrow> roster_entry list" where
  \<comment> \<open>\<^verbatim>\<open>find\<close> the first record with the id and flip its status\<close>
  "toggle_first i [] = []"
| "toggle_first i (s # ss) =
     (if student_id s = i
      then s\<lparr>status := (if status s = ''present'' then ''absent'' else ''present'')\<rparr> # ss
      else s # toggle_first i ss)"

definition toggle_click :: "nat \<Rightarrow> mark_state \<Rightarrow> mark_state" where
  \<comment> \<open>a click on the status button of the row displayed at position \<open>k\<close>\<close>
  "toggle_click k st =
     (case js_nth (markTbody st) k of
        None \<Rightarrow> st
      | Some row \<Rightarrow>
          (case List.find (\<lambda>x. student_id x = student_id row) (markAttendanceStudents st) of
             None \<Rightarrow> st
           | Some rec \<Rightarrow>
               updateMarkSummary
                 (st\<lparr>markAttendanceStudents :=
                        toggle_first (student_id row) (markAttendanceStudents st),
                      markTbody := (markTbody st)
                        [k := row\<lparr>status :=
                           (if status rec = ''present'' then ''absent'' else ''present'')\<rparr>]\<rparr>)))"

definition mark_all :: "string \<Rightarrow> mark_state \<Rightarrow> mark_state" where
  \<comment> \<open>the handlers of "Select All Present" and "Select All Absent"\<close>
  "mark_all v st =
     updateMarkSummary (renderMarkTable
       (st\<lparr>markAttendanceStudents := map (\<lambda>s. s\<lparr>status := v\<rparr>) (markAttendanceStudents st)\<rparr>))"

definition mark_key_changed :: "mark_state \<Rightarrow> mark_state" where
  \<comment> \<open>the common \<^verbatim>\<open>onchange\<close> of the section, date and session controls\<close>
  "mark_key_changed st =
     st\<lparr>markSaveBtn_disabled := True, markTbody := [], markSummary_shown := False\<rparr>"

definition absent_ids :: "roster_entry list \<Rightarrow> int list" where
  "absent_ids roster = map student_id (filter (\<lambda>s. status s = ''absent'') roster)"

definition saveMarkAttendance :: "mark_state \<Rightarrow> mark_state" where
  \<comment> \<open>up to the request\<close>
  "saveMarkAttendance st =
     (case (currentMarkSectionId st, currentMarkDate st, currentMarkSession st) of
        (Some sectionId, Some date, Some session) \<Rightarrow>
          if sectionId = 0 \<or> date = [] \<or> session = [] then st
          else st\<lparr>markSaveBtn_disabled := True, markSaveBtn_saving := True,
                  mark_requests := mark_requests st
                    @ [PostAttendance date sectionId session
                         (absent_ids (markAttendanceStudents st))]\<rparr>
      | _ \<Rightarrow> st)"

definition save_ok :: "mark_state \<Rightarrow> mark_state" where
  \<comment> \<open>the \<^verbatim>\<open>then\<close> of \<^verbatim>\<open>saveMarkAttendance\<close>\<close>
  "save_ok st =
     loadMarkAttendance
       (toast ''Attendance saved successfully.'' ''success''
          (st\<lparr>markSaveBtn_saving := False, markSaveBtn_disabled := False\<rparr>))"

definition save_failed :: "string \<Rightarrow> mark_state \<Rightarrow> mark_state" where
  \<comment> \<open>the \<^verbatim>\<open>catch\<close> of \<^verbatim>\<open>saveMarkAttendance\<close>\<close>
  "save_failed message st =
     toast message ''error'' (st\<lparr>markSaveBtn_saving := False, markSaveBtn_disabled := False\<rparr>)"

datatype mark_event =
    ChangeSection "int option"
  | ChangeDate string
  | ChangeSession string
  | SearchInput string
  | ClickLoad
  | LoadOk "student_json list"
  | LoadFailed string
  | ClickToggle nat
  | ClickAllPresent
  | ClickAllAbsent
  | ClickSave
  | SaveOk
  | SaveFailed string

fun mark_step :: "mark_event \<Rightarrow> mark_state \<Rightarrow> mark_state" where
  "mark_step (ChangeSection v) st = mark_key_changed (st\<lparr>markSection := v\<rparr>)"
| "mark_step (ChangeDate v) st = mark_key_changed (st\<lparr>markDate := v\<rparr>)"
| "mark_step (ChangeSession v) st = mark_key_changed (st\<lparr>markSession := v\<rparr>)"
| "mark_step (SearchInput v) st = filterMarkTable (st\<lparr>markSearch := v\<rparr>)"
| "mark_step ClickLoad st = loadMarkAttendance st"
| "mark_step (LoadOk students) st = load_ok students st"
| "mark_step (LoadFailed message) st = load_failed message st"
| "mark_step (ClickToggle k) st = toggle_click k st"
| "mark_step ClickAllPresent st = mark_all ''present'' st"
| "mark_step ClickAllAbsent st = mark_all ''absent'' st"
| "mark_step ClickSave st = (if markSaveBtn_disabled st then st else saveMarkAttendance st)"
| "mark_step SaveOk st = save_ok st"
| "mark_step (SaveFailed message) st = save_failed message st"

definition mark_run :: "mark_event list \<Rightarrow> mark_state \<Rightarrow> mark_state" where
  "mark_run events st = fold mark_step events st"

definition renderMarkAttendance :: "string \<Rightarrow> mark_state \<Rightarrow> mark_state" where
  \<comment> \<open>the page is built anew: the controls are reset (the date to today), the variables of
      the script keep their values\<close>
  "renderMarkAttendance today st =
     st\<lparr>markSection := None, markDate := today, markSession := ''morning'', markSearch := [],
        markSaveBtn_disabled := True, markSaveBtn_saving := False, markWarning_shown := False,
        markTbody := [], markSummary_shown := False\<rparr>"

definition mark_initial :: "string \<Rightarrow> mark_state" where
  \<comment> \<open>the variables as the script declares them, and the page as first built\<close>
  "mark_initial today =
     \<lparr>markSection = None, markDate = today, markSession = ''morning'', markSearch = [],
      currentMarkSectionId = None, currentMarkDate = None, currentMarkSession = None,
      markAttendanceStudents = [], markEditingMode = False,
      markSaveBtn_disabled = True, markSaveBtn_saving = False, markWarning_shown = False,
      markTbody = [], markSummary_shown = False,
      markSummary = \<lparr>sum_total = 0, sum_present = 0, sum_absent = 0\<rparr>,
      mark_toasts = [], mark_requests = []\<rparr>"

definition toggle_or_bulk :: "mark_event \<Rightarrow> bool" where
  \<comment> \<open>the events that edit statuses or filter the display\<close>
  "toggle_or_bulk e =
     (case e of ClickToggle k \<Rightarrow> True | ClickAllPresent \<Rightarrow> True | ClickAllAbsent \<Rightarrow> True
      | SearchInput v \<Rightarrow> True | _ \<Rightarrow> False)"

section \<open>The list pages: students and attendance records\<close>

text \<open>
  Each list has its query state in variables of the script. The two page buttons exist only
  while the last rendered answer had more than one page; their handler keeps the number of
  pages it was created with. That number is the field \<open>studentsPagination\<close>
  (\<open>recordsPagination\<close>), \<^const>\<open>None\<close> when there are no buttons.
\<close>

datatype page_button = Previous | Next

datatype per_page_option = PerPage10 | PerPage25 | PerPage50

fun per_page_value :: "per_page_option \<Rightarrow> int" where
  \<comment> \<open>\<^verbatim>\<open>parseInt(this.value, 10)\<close> on the three options of the select\<close>
  "per_page_value PerPage10 = 10"
| "per_page_value PerPage25 = 25"
| "per_page_value PerPage50 = 50"

definition total_pages :: "int \<Rightarrow> int \<Rightarrow> int" where
  \<comment> \<open>\<^verbatim>\<open>Math.ceil(total / perPage) || 1\<close>; the page size is 25 at the start and 10, 25 or
      50 afterwards, never 0\<close>
  "total_pages dataTotal perPage =
     (let c = - ((- dataTotal) div perPage) in if c = 0 then 1 else c)"

datatype 'row tbody = Rows "'row list" | Message string

record student_row =
  row_roll_no :: string
  row_name :: string
  row_section_id :: int

record students_state =
  studentsPage :: int
  studentsPerPage :: int
  studentsTotal :: int
  studentsSectionId :: "int option"
  studentsSearch :: string
  studentsSortBy :: string
  studentsTbody :: "(string \<times> string \<times> string option) tbody"
  studentsPagination :: "int option"
  students_requests :: "request list"

definition students_initial :: students_state where
  "students_initial =
     \<lparr>studentsPage = 1, studentsPerPage = 25, studentsTotal = 0, studentsSectionId = None,
      studentsSearch = [], studentsSortBy = ''roll_no'', studentsTbody = Rows [],
      studentsPagination = None, students_requests = []\<rparr>"

definition loadStudentsList :: "students_state \<Rightarrow> students_state" where
  \<comment> \<open>up to the request, which carries the query state as it is now\<close>
  "loadStudentsList st =
     st\<lparr>students_requests := students_requests st
          @ [GetStudents (studentsPage st) (studentsPerPage st) (studentsSortBy st)
               (if falsy_id (studentsSectionId st) then None else studentsSectionId st)
               (if studentsSearch st = [] then None else Some (studentsSearch st))]\<rparr>"

definition students_loaded :: "int \<Rightarrow> students_state \<Rightarrow> students_state" where
  \<comment> \<open>the first \<^verbatim>\<open>then\<close>: \<^verbatim>\<open>studentsTotal = data.total || 0\<close>, and the sections are asked
      for\<close>
  "students_loaded dataTotal st =
     st\<lparr>studentsTotal := dataTotal, students_requests := students_requests st @ [GetSections]\<rparr>"

definition students_rendered ::
    "student_row list \<Rightarrow> (int \<times> string) list \<Rightarrow> students_state \<Rightarrow> students_state" where
  \<comment> \<open>the second \<^verbatim>\<open>then\<close>: the rows, and the buttons when there is more than one page.
      A section without a name is shown as a dash, here \<^const>\<open>None\<close>.\<close>
  "students_rendered list secList st =
     (let totalPages = total_pages (studentsTotal st) (studentsPerPage st)
      in st\<lparr>studentsTbody := Rows (map (\<lambda>r. (row_roll_no r, row_name r,
                (case map_of (rev secList) (row_section_id r) of
                   None \<Rightarrow> None | Some n \<Rightarrow> if n = [] then None else Some n))) list),
            studentsPagination := (if 1 < totalPages then Some totalPages else None)\<rparr>)"

definition students_failed :: "students_state \<Rightarrow> students_state" where
  "students_failed st = st\<lparr>studentsTbody := Message ''Failed to load.''\<rparr>"

definition students_page_click :: "page_button \<Rightarrow> students_state \<Rightarrow> students_state" where
  \<comment> \<open>a click on a page button; without buttons there is nothing to click\<close>
  "students_page_click b st =
     (case studentsPagination st of
        None \<Rightarrow> st
      | Some totalPages \<Rightarrow>
          (let p1 = (if b = Previous \<and> 1 < studentsPage st then studentsPage st - 1
                     else studentsPage st);
               p2 = (if b = Next \<and> p1 < totalPages then p1 + 1 else p1)
           in loadStudentsList (st\<lparr>studentsPage := p2\<rparr>)))"

datatype students_event =
    StudentsSearch string
  | StudentsSection "int option"
  | StudentsPerPage per_page_option
  | StudentsSort string
  | StudentsPageClick page_button
  | StudentsLoaded int
  | StudentsRendered "student_row list" "(int \<times> string) list"
  | StudentsFailed

fun students_step :: "students_event \<Rightarrow> students_state \<Rightarrow> students_state" where
  "students_step (StudentsSearch v) st =
     loadStudentsList (st\<lparr>studentsSearch := v, studentsPage := 1\<rparr>)"
| "students_step (StudentsSection v) st =
     loadStudentsList (st\<lparr>studentsSectionId := v, studentsPage := 1\<rparr>)"
| "students_step (StudentsPerPage v) st =
     loadStudentsList (st\<lparr>studentsPerPage := per_page_value v, studentsPage := 1\<rparr>)"
| "students_step (StudentsSort v) st = loadStudentsList (st\<lparr>studentsSortBy := v\<rparr>)"
| "students_step (StudentsPageClick b) st = students_page_click b st"
| "students_step (StudentsLoaded dataTotal) st = students_loaded dataTotal st"
| "students_step (StudentsRendered list secList) st = students_rendered list secList st"
| "students_step StudentsFailed st = students_failed st"

record record_row =
  rec_roll_no :: string
  rec_name :: string
  rec_status :: string

record records_state =
  recordsPage :: int
  recordsPerPage :: int
  recordsSearch :: string
  recordsSection_value :: "int option"
  recordsDate_value :: string
  recordsSession_value :: string
  recordsTbody :: "(string \<times> string \<times> string) tbody"
  recordsTotal_shown :: int
  recordsPagination :: "int option"
  records_requests :: "request list"

definition records_initial :: "string \<Rightarrow> records_state" where
  "records_initial today =
     \<lparr>recordsPage = 1, recordsPerPage = 25, recordsSearch = [], recordsSection_value = None,
      recordsDate_value = today, recordsSession_value = ''morning'', recordsTbody = Rows [],
      recordsTotal_shown = 0, recordsPagination = None, records_requests = []\<rparr>"

definition loadRecords :: "records_state \<Rightarrow> records_state" where
  \<comment> \<open>up to the request; section, date and session are read from the form controls\<close>
  "loadRecords st =
     (case recordsSection_value st of
        None \<Rightarrow> st\<lparr>recordsTbody := Message ''Select section and date, then click Load.''\<rparr>
      | Some sectionId \<Rightarrow>
          if sectionId = 0 \<or> recordsDate_value st = []
          then st\<lparr>recordsTbody := Message ''Select section and date, then click Load.''\<rparr>
          else st\<lparr>records_requests := records_requests st
                 @ [GetRecords sectionId (recordsDate_value st) (recordsSession_value st)
                      (recordsPage st) (recordsPerPage st)
                      (if recordsSearch st = [] then None else Some (recordsSearch st))]\<rparr>)"

definition records_loaded :: "record_row list \<Rightarrow> int \<Rightarrow> records_state \<Rightarrow> records_state" where
  \<comment> \<open>the \<^verbatim>\<open>then\<close> of \<^verbatim>\<open>loadRecords\<close>\<close>
  "records_loaded list dataTotal st =
     (let totalPages = total_pages dataTotal (recordsPerPage st)
      in st\<lparr>recordsTbody := Rows (map (\<lambda>r. (rec_roll_no r, rec_name r,
                (if rec_status r = ''absent'' then ''Absent'' else ''Present''))) list),
            recordsTotal_shown := dataTotal,
            recordsPagination := (if 1 < totalPages then Some totalPages else None)\<rparr>)"

definition records_failed :: "records_state \<Rightarrow> records_state" where
  "records_failed st = st\<lparr>recordsTbody := Message ''Failed to load.''\<rparr>"

definition records_page_click :: "page_button \<Rightarrow> records_state \<Rightarrow> records_state" where
  "records_page_click b st =
     (case recordsPagination st of
        None \<Rightarrow> st
      | Some totalPages \<Rightarrow>
          (let p1 = (if b = Previous \<and> 1 < recordsPage st then recordsPage st - 1
                     else recordsPage st);
               p2 = (if b = Next \<and> p1 < totalPages then p1 + 1 else p1)
           in loadRecords (st\<lparr>recordsPage := p2\<rparr>)))"

datatype records_event =
    RecordsSection "int option"
  | RecordsDate string
  | RecordsSession string
  | RecordsSearch string
  | RecordsPerPage per_page_option
  | RecordsLoadClick
  | RecordsPageClick page_button
  | RecordsLoaded "record_row list" int
  | RecordsFailed

fun records_step :: "records_event \<Rightarrow> records_state \<Rightarrow> records_state" where
  "records_step (RecordsSection v) st =
     loadRecords (st\<lparr>recordsSection_value := v, recordsPage := 1\<rparr>)"
| "records_step (RecordsDate v) st = loadRecords (st\<lparr>recordsDate_value := v, recordsPage := 1\<rparr>)"
| "records_step (RecordsSession v) st =
     loadRecords (st\<lparr>recordsSession_value := v, recordsPage := 1\<rparr>)"
| "records_step (RecordsSearch v) st = loadRecords (st\<lparr>recordsSearch := v, recordsPage := 1\<rparr>)"
| "records_step (RecordsPerPage v) st =
     loadRecords (st\<lparr>recordsPerPage := per_page_value v, recordsPage := 1\<rparr>)"
| "records_step RecordsLoadClick st = loadRecords st"
| "records_step (RecordsPageClick b) st = records_page_click b st"
| "records_step (RecordsLoaded list dataTotal) st = records_loaded list dataTotal st"
| "records_step RecordsFailed st = records_failed st"

section \<open>Notions used in the claims\<close>

text \<open>
  The summary a roster should show, rosters whose statuses are present or absent only, a
  complete key, the sort events, and the small states the claims are tried on.
\<close>

definition summary_of :: "roster_entry list \<Rightarrow> summary" where
  "summary_of roster =
     \<lparr>sum_total = int (length roster),
      sum_present = int (length (filter (\<lambda>s. status s = ''present'') roster)),
      sum_absent = int (length roster)
        - int (length (filter (\<lambda>s. status s = ''present'') roster))\<rparr>"

definition two_valued :: "roster_entry list \<Rightarrow> bool" where
  "two_valued roster = list_all (\<lambda>s. status s = ''present'' \<or> status s = ''absent'') roster"

definition demo_students :: "student_json list" where
  "demo_students =
     [\<lparr>json_student_id = 11, json_roll_no = ''R1'', json_name = ''Asha'', json_status = None\<rparr>,
      \<lparr>json_student_id = 12, json_roll_no = ''R2'', json_name = ''Bala'', json_status = Some ''absent''\<rparr>,
      \<lparr>json_student_id = 13, json_roll_no = ''R3'', json_name = ''Chitra'', json_status = Some ''present''\<rparr>]"

definition demo_ready :: mark_state where
  "demo_ready =
     mark_run [ChangeSection (Some 1), ClickLoad, LoadOk demo_students] (mark_initial ''2024-03-01'')"

definition valid_key :: "int option \<Rightarrow> string option \<Rightarrow> string option \<Rightarrow> bool" where
  "valid_key sectionId date session =
     (\<not> falsy_id sectionId \<and> \<not> falsy_str date \<and> \<not> falsy_str session)"

definition is_sort :: "students_event \<Rightarrow> bool" where
  "is_sort e = (case e of StudentsSort v \<Rightarrow> True | _ \<Rightarrow> False)"

definition demo_students_page3 :: students_state where
  "demo_students_page3 =
     students_rendered [] [] (students_loaded 30 (students_initial\<lparr>studentsPerPage := 10, studentsPage := 3\<rparr>))"

definition demo_students_stale :: students_state where
  \<comment> \<open>30 students shown in pages of 25; then the page size is set to 50 and the request
      fails, so the buttons of the two pages stay on screen\<close>
  "demo_students_stale =
     fold students_step
       [StudentsLoaded 30, StudentsRendered [] [], StudentsPerPage PerPage50, StudentsFailed]
       students_initial"

definition demo_students_past_end :: students_state where
  \<comment> \<open>the same without a failure: the page size is set to 50 and, before the answer is
      rendered, "Next" is clicked on the buttons still on screen; then both answers are
      rendered, the later one being page 2 of the 30 students in pages of 50, which is empty\<close>
  "demo_students_past_end =
     fold students_step
       [StudentsLoaded 30, StudentsRendered [] [], StudentsPerPage PerPage50,
        StudentsPageClick Next, StudentsLoaded 30, StudentsRendered [] [],
        StudentsLoaded 30, StudentsRendered [] []]
       students_initial"

definition demo_records_stale :: records_state where
  \<comment> \<open>30 records shown in pages of 25; then the page size is set to 50 and the request
      fails\<close>
  "demo_records_stale =
     fold records_step
       [RecordsSection (Some 1), RecordsLoaded [] 30, RecordsPerPage PerPage50, RecordsFailed]
       (records_initial ''2024-03-01'')"

section \<open>The loops of the chat formatter in closed form\<close>

lemma cells_loop_eq:
  "cells_loop cells tag c h = h @ concat (map (cell_html tag) (drop c cells))"
proof (induction cells tag c h rule: cells_loop.induct)
  case (1 cells tag c h)
  show ?case
  proof (cases "c < length cells")
    case True
    then have d: "drop c cells = cells ! c # drop (Suc c) cells"
      by (simp add: Cons_nth_drop_Suc)
    from True "1.IH" show ?thesis
      by (subst cells_loop.simps) (simp add: d js_nth_def cell_html_def)
  next
    case False
    then show ?thesis by (subst cells_loop.simps) simp
  qed
qed

lemma rows_loop_td:
  "\<not> skipSep \<or> 2 \<le> r \<Longrightarrow>
   rows_loop rows skipSep r h
     = Some (h @ concat (map (\<lambda>row. row_html ''td'' (row_cells row)) (drop r rows)))"
proof (induction rows skipSep r h rule: rows_loop.induct)
  case (1 rows skipSep r h)
  show ?case
  proof (cases "r < length rows")
    case True
    then have d: "drop r rows = rows ! r # drop (Suc r) rows"
      by (simp add: Cons_nth_drop_Suc)
    from "1.prems" have ns: "\<not> (skipSep \<and> r = 1)" "\<not> (r = 0 \<and> skipSep)" by auto
    then have c: "(skipSep \<and> r = 1) = False" "(r = 0 \<and> skipSep) = False" by simp_all
    from "1.prems" have nx: "\<not> skipSep \<or> 2 \<le> Suc r" by auto
    have step: "rows_loop rows skipSep r h
        = rows_loop rows skipSep (Suc r)
            (cells_loop (row_cells (rows ! r)) ''td'' 0 (h @ ''<tr>'') @ ''</tr>'')"
      using True by (subst rows_loop.simps) (simp only: c js_nth_def if_True if_False option.case)
    from True ns have nth: "js_nth rows r = Some (rows ! r)" by (simp add: js_nth_def)
    show ?thesis
      unfolding step
      using "1.IH"(2) [OF True _ nth nx] ns
      by (simp add: d cells_loop_eq row_html_def)
  next
    case False
    then show ?thesis by (subst rows_loop.simps) simp
  qed
qed

lemma table_html_eq:
  "table_html rows = Some (render_table (block_header rows) (block_body rows))"
proof (cases "has_header rows")
  case False
  then have sk: "skip_sep rows = Some False"
    by (auto simp: has_header_def skip_sep_def js_nth_def)
  show ?thesis
    using False by (simp add: table_html_def sk rows_loop_td render_table_def block_header_def
        block_body_def comp_def)
next
  case True
  then have sk: "skip_sep rows = Some True" by (simp add: has_header_def)
  then have len: "2 \<le> length rows" by (auto simp: skip_sep_def split: if_splits)
  then obtain a b rest where rows: "rows = a # b # rest"
    by (cases rows; cases "tl rows") auto
  let ?rows = "a # b # rest"
  from sk rows have sk': "skip_sep ?rows = Some True" by simp
  from True rows have hh: "has_header ?rows" by simp
  have s0: "rows_loop ?rows True 0 table_open
      = rows_loop ?rows True 1 (cells_loop (row_cells a) ''th'' 0 (table_open @ ''<tr>'') @ ''</tr>'')"
    by (subst rows_loop.simps) (simp add: js_nth_def)
  have s1: "rows_loop ?rows True 1 h = rows_loop ?rows True 2 h" for h
    by (subst rows_loop.simps) (simp add: numeral_2_eq_2)
  have s2: "rows_loop ?rows True 2 h
      = Some (h @ concat (map (\<lambda>row. row_html ''td'' (row_cells row)) rest))" for h
    by (simp add: rows_loop_td)
  have "table_html ?rows
      = Some (table_open @ row_html ''th'' (row_cells a)
          @ concat (map (\<lambda>row. row_html ''td'' (row_cells row)) rest) @ ''</table>'')"
    unfolding table_html_def sk' option.case s0 s1 s2
    by (simp add: cells_loop_eq row_html_def)
  then show ?thesis
    by (simp add: rows render_table_def block_header_def block_body_def hh comp_def)
qed

lemma table_run_eq:
  "table_run lines i acc
     = Some (acc @ takeWhile table_row_match (drop i lines),
             i + length (takeWhile table_row_match (drop i lines)))"
proof (induction lines i acc rule: table_run.induct)
  case (1 lines i acc)
  show ?case
  proof (cases "i < length lines")
    case True
    then have d: "drop i lines = lines ! i # drop (Suc i) lines"
      by (simp add: Cons_nth_drop_Suc)
    from True have nth: "js_nth lines i = Some (lines ! i)" by (simp add: js_nth_def)
    show ?thesis
    proof (cases "table_row_match (lines ! i)")
      case m: True
      from "1.IH" [OF True nth m] True m show ?thesis
        by (subst table_run.simps) (simp add: d nth)
    next
      case m: False
      with True show ?thesis by (subst table_run.simps) (simp add: d nth)
    qed
  next
    case False
    then show ?thesis by (subst table_run.simps) simp
  qed
qed

lemma scan_lines_eq: "scan_lines lines i out = Some (out @ blocks (drop i lines))"
proof (induction lines i out rule: scan_lines.induct)
  case (1 lines i out)
  show ?case
  proof (cases "i < length lines")
    case True
    then have d: "drop i lines = lines ! i # drop (Suc i) lines"
      by (simp add: Cons_nth_drop_Suc)
    from True have nth: "js_nth lines i = Some (lines ! i)" by (simp add: js_nth_def)
    let ?rest = "drop (Suc i) lines"
    show ?thesis
    proof (cases "table_row_match (lines ! i)")
      case m: True
      let ?rows = "lines ! i # takeWhile table_row_match ?rest"
      let ?j = "Suc (i + length (takeWhile table_row_match ?rest))"
      have run: "table_run lines i [] = Some (?rows, ?j)"
        by (simp add: table_run_eq d m)
      have dj: "drop ?j lines = dropWhile table_row_match ?rest"
      proof -
        have "drop ?j lines = drop (length (takeWhile table_row_match ?rest)) ?rest"
          by (simp add: add.commute)
        also have "\<dots> = dropWhile table_row_match ?rest"
          by (simp add: dropWhile_eq_drop)
        finally show ?thesis .
      qed
      have ih: "scan_lines lines ?j (out @ [h]) = Some ((out @ [h]) @ blocks (drop ?j lines))"
        if "table_html ?rows = Some h" for h
        using "1.IH"(1) [OF True nth m run refl that] .
      have "scan_lines lines i out
          = scan_lines lines ?j (out @ [render_table (block_header ?rows) (block_body ?rows)])"
        by (subst scan_lines.simps) (simp add: True nth m run table_html_eq)
      also have "\<dots> = Some ((out @ [render_table (block_header ?rows) (block_body ?rows)])
            @ blocks (drop ?j lines))"
        by (rule ih) (rule table_html_eq)
      finally show ?thesis by (simp add: d m dj)
    next
      case m: False
      from "1.IH"(2) [OF True nth m] True m show ?thesis
        by (subst scan_lines.simps) (simp add: d nth)
    qed
  next
    case False
    then show ?thesis by (subst scan_lines.simps) simp
  qed
qed

lemma js_split_neq_Nil: "js_split d s \<noteq> []"
  by (induction s) (auto split: list.splits)

lemma js_join_split: "js_join [d] (js_split d s) = s"
proof (induction s)
  case Nil
  show ?case by simp
next
  case (Cons c cs)
  obtain x xs where sp: "js_split d cs = x # xs"
    using js_split_neq_Nil [of d cs] by (cases "js_split d cs") auto
  show ?case
  proof (cases "c = d")
    case True
    with Cons sp show ?thesis by simp
  next
    case False
    with Cons sp show ?thesis by (cases xs) auto
  qed
qed

lemma blocks_no_rows: "list_all (\<lambda>l. \<not> table_row_match l) ls \<Longrightarrow> blocks ls = ls"
  by (induction ls) auto

lemma formatAiMessage_eq:
  "formatAiMessage raw
     = Some (newline_to_br (js_join [CHR 0x0A]
         (blocks (js_split (CHR 0x0A) (bold_replace (escapeHtml (Some (js_or_empty raw))))))))"
  by (simp add: formatAiMessage_def scan_lines_eq)

lemma escape_char_nl: "escape_char (CHR 0x0A) = [CHR 0x0A]"
  by (simp add: escape_char.simps)

lemma table_row_match_iff:
  "table_row_match l \<longleftrightarrow> (\<exists>m. l = CHR ''|'' # m @ ''|'' \<and> m \<noteq> [] \<and> list_all regex_dot m)"
proof (cases l)
  case Nil
  then show ?thesis by (simp add: table_row_match_def)
next
  case (Cons c r)
  show ?thesis
  proof (cases r rule: rev_cases)
    case Nil
    with Cons show ?thesis by (simp add: table_row_match_def)
  next
    case (snoc ys y)
    with Cons show ?thesis by (auto simp: table_row_match_def)
  qed
qed

lemma neutral_dot: "neutral u \<Longrightarrow> list_all regex_dot u"
  by (auto simp: neutral_def regex_dot_def list_all_iff)

lemma row_neutral_imp:
  assumes u: "neutral u" and v: "neutral v" and m: "table_row_match (a @ u @ b)"
  shows "table_row_match (a @ v @ b)"
proof -
  from m obtain m' where eq: "a @ u @ b = CHR ''|'' # m' @ ''|''" and ne: "m' \<noteq> []"
    and dot: "list_all regex_dot m'" by (auto simp: table_row_match_iff)
  from u obtain u0 us where us: "u = u0 # us" and u0: "u0 \<noteq> CHR ''|''"
    by (cases u) (auto simp: neutral_def)
  from u have ul: "last u \<noteq> CHR ''|''" 
    by (cases u rule: rev_cases) (auto simp: neutral_def)
  from u have une: "u \<noteq> []" by (simp add: neutral_def)
  have "a \<noteq> []"
  proof
    assume "a = []"
    with eq us u0 show False by simp
  qed
  then obtain a1 where a: "a = CHR ''|'' # a1" using eq by (cases a) auto
  have "b \<noteq> []"
  proof
    assume b: "b = []"
    from eq have "last (a @ u @ b) = last (CHR ''|'' # m' @ ''|'')" by simp
    with b une ul show False by simp
  qed
  then obtain b1 bl where b: "b = b1 @ [bl]" by (cases b rule: rev_cases) auto
  from eq a b have "(a1 @ u @ b1) @ [bl] = m' @ ''|''" by simp
  then have bl: "bl = CHR ''|''" and mid: "m' = a1 @ u @ b1" by auto
  from dot mid have "list_all regex_dot a1" "list_all regex_dot b1" by simp_all
  with neutral_dot [OF v] have "list_all regex_dot (a1 @ v @ b1)" by simp
  moreover from v have "a1 @ v @ b1 \<noteq> []" by (simp add: neutral_def)
  moreover have "a @ v @ b = CHR ''|'' # (a1 @ v @ b1) @ ''|''" by (simp add: a b bl)
  ultimately show ?thesis unfolding table_row_match_iff by blast
qed

lemma row_neutral:
  "neutral u \<Longrightarrow> neutral v \<Longrightarrow> table_row_match (a @ u @ b) = table_row_match (a @ v @ b)"
  using row_neutral_imp [of u v a b] row_neutral_imp [of v u a b] by blast

lemma split_acc_append:
  "CHR 0x0A \<notin> set u \<Longrightarrow> split_acc a (u @ s) = split_acc (a @ u) s"
  by (induction u arbitrary: a) auto

lemma js_split_acc: "split_acc a s = (a @ hd (js_split (CHR 0x0A) s)) # tl (js_split (CHR 0x0A) s)"
proof (induction s arbitrary: a)
  case Nil
  show ?case by simp
next
  case (Cons c cs)
  obtain x xs where sp: "js_split (CHR 0x0A) cs = x # xs"
    using js_split_neq_Nil [of "CHR 0x0A" cs] by (cases "js_split (CHR 0x0A) cs") auto
  show ?case by (simp add: Cons.IH sp)
qed

lemma js_split_eq_acc: "js_split (CHR 0x0A) s = split_acc [] s"
  using js_split_neq_Nil [of "CHR 0x0A" s] by (simp add: js_split_acc)

lemma neutral_nl: "neutral u \<Longrightarrow> CHR 0x0A \<notin> set u"
  by (auto simp: neutral_def list_all_iff)

lemma ctx_neutral:
  assumes "\<And>b. table_row_match (a @ b) = table_row_match (a' @ b)" "neutral u" "neutral v"
  shows "table_row_match ((a @ u) @ b) = table_row_match ((a' @ v) @ b)"
proof -
  have "table_row_match ((a @ u) @ b) = table_row_match (a' @ u @ b)"
    using assms(1) [of "u @ b"] by simp
  also have "\<dots> = table_row_match (a' @ v @ b)" by (rule row_neutral [OF assms(2,3)])
  finally show ?thesis by simp
qed

lemma flags_middle:
  assumes cont: "\<And>b b'. (\<And>x. table_row_match (b @ x) = table_row_match (b' @ x)) \<Longrightarrow>
      map table_row_match (split_acc b r) = map table_row_match (split_acc b' r')"
  shows "(\<And>x. table_row_match (a @ x) = table_row_match (a' @ x)) \<Longrightarrow>
    map table_row_match (split_acc a (X @ r)) = map table_row_match (split_acc a' (X @ r'))"
proof (induction X arbitrary: a a')
  case Nil
  then show ?case using cont by simp
next
  case (Cons c X)
  show ?case
  proof (cases "c = CHR 0x0A")
    case True
    have "map table_row_match (split_acc [] (X @ r)) = map table_row_match (split_acc [] (X @ r'))"
      by (rule Cons.IH) simp
    with True Cons.prems [of "[]"] show ?thesis by simp
  next
    case False
    have "map table_row_match (split_acc (a @ [c]) (X @ r))
        = map table_row_match (split_acc (a' @ [c]) (X @ r'))"
    proof (rule Cons.IH)
      fix x
      show "table_row_match ((a @ [c]) @ x) = table_row_match ((a' @ [c]) @ x)"
        using Cons.prems [of "c # x"] by simp
    qed
    with False show ?thesis by simp
  qed
qed

lemma neutral_consts: "neutral ''**''" "neutral ''<strong>''" "neutral ''</strong>''"
  "neutral ''&''" "neutral ''<''" "neutral ''>''" "neutral [CHR 0xA0]"
  "neutral ''&amp;''" "neutral ''&lt;''" "neutral ''&gt;''" "neutral ''&nbsp;''"
  by (simp_all add: neutral_def)

lemma bold_replace_flags:
  "(\<And>x. table_row_match (a @ x) = table_row_match (a' @ x)) \<Longrightarrow>
   map table_row_match (split_acc a s) = map table_row_match (split_acc a' (bold_replace s))"
proof (induction s arbitrary: a a' rule: bold_replace.induct)
  case 1
  from "1.prems" [of "[]"] show ?case by simp
next
  case (2 c cs)
  let ?X = "takeWhile not_star (drop 1 cs)"
  let ?R = "dropWhile not_star (drop 1 cs)"
  let ?rest = "drop 2 ?R"
  let ?cond = "c = CHR ''*'' \<and> take 1 cs = ''*'' \<and> ?X \<noteq> [] \<and> take 2 ?R = ''**''"
  show ?case
  proof (cases ?cond)
    case True
    then have c: "c = CHR ''*''" and t1: "take 1 cs = ''*''" and t2: "take 2 ?R = ''**''"
      by simp_all
    have cs: "cs = ''*'' @ drop 1 cs" using t1 append_take_drop_id [of 1 cs] by simp
    have R: "?R = ''**'' @ ?rest" using t2 append_take_drop_id [of 2 ?R] by simp
    have "drop 1 cs = ?X @ ?R" by simp
    with R have d: "drop 1 cs = ?X @ ''**'' @ ?rest" by simp
    have src: "c # cs = ''**'' @ ?X @ ''**'' @ ?rest"
      using c cs d by (metis append_Cons append_Nil)
    have out: "bold_replace (c # cs) = ''<strong>'' @ ?X @ ''</strong>'' @ bold_replace ?rest"
      using True by simp
    have "map table_row_match (split_acc (a @ ''**'') (?X @ ''**'' @ ?rest))
        = map table_row_match (split_acc (a' @ ''<strong>'') (?X @ ''</strong>'' @ bold_replace ?rest))"
    proof (rule flags_middle)
      fix b b' :: string
      assume bb: "\<And>x. table_row_match (b @ x) = table_row_match (b' @ x)"
      have "map table_row_match (split_acc (b @ ''**'') ?rest)
          = map table_row_match (split_acc (b' @ ''</strong>'') (bold_replace ?rest))"
        by (rule "2.IH"(1) [OF True]) (rule ctx_neutral [OF bb neutral_consts(1,3)])
      moreover have "split_acc b (''**'' @ ?rest) = split_acc (b @ ''**'') ?rest"
        by (rule split_acc_append) simp
      moreover have "split_acc b' (''</strong>'' @ bold_replace ?rest)
          = split_acc (b' @ ''</strong>'') (bold_replace ?rest)"
        by (rule split_acc_append) simp
      ultimately show "map table_row_match (split_acc b (''**'' @ ?rest))
          = map table_row_match (split_acc b' (''</strong>'' @ bold_replace ?rest))"
        by (simp only:)
    next
      fix x
      show "table_row_match ((a @ ''**'') @ x) = table_row_match ((a' @ ''<strong>'') @ x)"
        by (rule ctx_neutral [OF "2.prems" neutral_consts(1,2)])
    qed
    moreover have "split_acc a (c # cs) = split_acc (a @ ''**'') (?X @ ''**'' @ ?rest)"
      by (subst src) (rule split_acc_append, simp)
    moreover have "split_acc a' (bold_replace (c # cs))
        = split_acc (a' @ ''<strong>'') (?X @ ''</strong>'' @ bold_replace ?rest)"
      by (subst out) (rule split_acc_append, simp)
    ultimately show ?thesis by (simp only:)
  next
    case False
    then have out: "bold_replace (c # cs) = c # bold_replace cs" by auto
    show ?thesis
    proof (cases "c = CHR 0x0A")
      case nl: True
      have "map table_row_match (split_acc [] cs) = map table_row_match (split_acc [] (bold_replace cs))"
        by (rule "2.IH"(2) [OF False]) simp
      with nl "2.prems" [of "[]"] show ?thesis unfolding out by simp
    next
      case nl: False
      have "map table_row_match (split_acc (a @ [c]) cs)
          = map table_row_match (split_acc (a' @ [c]) (bold_replace cs))"
      proof (rule "2.IH"(2) [OF False])
        fix x
        show "table_row_match ((a @ [c]) @ x) = table_row_match ((a' @ [c]) @ x)"
          using "2.prems" [of "c # x"] by simp
      qed
      with nl show ?thesis unfolding out by simp
    qed
  qed
qed

lemma escape_flags:
  "(\<And>x. table_row_match (a @ x) = table_row_match (a' @ x)) \<Longrightarrow>
   map table_row_match (split_acc a s)
     = map table_row_match (split_acc a' (concat (map escape_char s)))"
proof (induction s arbitrary: a a')
  case Nil
  from Nil.prems [of "[]"] show ?case by simp
next
  case (Cons c s)
  let ?e = "concat (map escape_char s)"
  show ?case
  proof (cases "c = CHR 0x0A")
    case True
    have "map table_row_match (split_acc [] s) = map table_row_match (split_acc [] ?e)"
      by (rule Cons.IH) simp
    with True Cons.prems [of "[]"] show ?thesis by (simp add: escape_char_nl)
  next
    case False
    have nu: "neutral [c] \<and> neutral (escape_char c) \<or> escape_char c = [c]"
      using neutral_consts by (auto simp: escape_char.simps)
    have ctx: "table_row_match ((a @ [c]) @ x) = table_row_match ((a' @ escape_char c) @ x)" for x
    proof -
      from nu show ?thesis
      proof
        assume "neutral [c] \<and> neutral (escape_char c)"
        then show ?thesis using ctx_neutral [OF Cons.prems, of "[c]" "escape_char c" x] by blast
      next
        assume "escape_char c = [c]"
        then show ?thesis using Cons.prems [of "c # x"] by simp
      qed
    qed
    have enl: "CHR 0x0A \<notin> set (escape_char c)"
      using False by (auto simp: escape_char.simps)
    have "map table_row_match (split_acc (a @ [c]) s)
        = map table_row_match (split_acc (a' @ escape_char c) ?e)"
      by (rule Cons.IH) (rule ctx)
    then show ?thesis
      using False split_acc_append [OF enl, of a' ?e] by simp
  qed
qed

lemma row_flags_preserved:
  "map table_row_match (js_split (CHR 0x0A) (bold_replace (escapeHtml (Some s))))
     = map table_row_match (js_split (CHR 0x0A) s)"
proof -
  have "map table_row_match (split_acc [] s)
      = map table_row_match (split_acc [] (concat (map escape_char s)))"
    by (rule escape_flags) simp
  also have "\<dots> = map table_row_match (split_acc [] (bold_replace (concat (map escape_char s))))"
    by (rule bold_replace_flags) simp
  finally show ?thesis by (simp add: js_split_eq_acc escapeHtml_def)
qed

lemma separator_match_iff:
  "separator_match t \<longleftrightarrow>
     (\<exists>m. t = CHR ''|'' # m @ ''|'' \<and> m \<noteq> [] \<and> list_all separator_char m)"
proof (cases t)
  case Nil
  then show ?thesis by (simp add: separator_match_def)
next
  case (Cons c r)
  show ?thesis
  proof (cases r rule: rev_cases)
    case Nil
    with Cons show ?thesis by (simp add: separator_match_def)
  next
    case (snoc ys y)
    with Cons show ?thesis by (auto simp: separator_match_def)
  qed
qed

lemma has_header_iff:
  "has_header tableRows \<longleftrightarrow>
     (2 \<le> length tableRows \<and> separator_match (remove_whitespace (tableRows ! 1)))"
  by (auto simp: has_header_def skip_sep_def js_nth_def)

lemma single_line:
  assumes nl: "CHR 0x0A \<notin> set l"
  shows "js_split (CHR 0x0A) (bold_replace (escapeHtml (Some l)))
           = [bold_replace (escapeHtml (Some l))]"
proof -
  let ?p = "bold_replace (escapeHtml (Some l))"
  have one: "js_split (CHR 0x0A) l = [l]"
    unfolding js_split_eq_acc using split_acc_append [OF nl, of "[]" "[]"] by simp
  have "length (js_split (CHR 0x0A) ?p) = length (js_split (CHR 0x0A) l)"
    using row_flags_preserved [of l] by (metis length_map)
  with one obtain x where x: "js_split (CHR 0x0A) ?p = [x]"
    by (cases "js_split (CHR 0x0A) ?p") auto
  have "js_join [CHR 0x0A] (js_split (CHR 0x0A) ?p) = ?p" by (rule js_join_split)
  with x show ?thesis by simp
qed

lemma single_line_format:
  assumes nl: "CHR 0x0A \<notin> set l"
  shows "formatAiMessage (Some l)
     = Some (newline_to_br
         (if table_row_match l
          then render_table None [row_cells (bold_replace (escapeHtml (Some l)))]
          else bold_replace (escapeHtml (Some l))))"
proof -
  let ?p = "bold_replace (escapeHtml (Some l))"
  have one: "js_split (CHR 0x0A) l = [l]"
    unfolding js_split_eq_acc using split_acc_append [OF nl, of "[]" "[]"] by simp
  from row_flags_preserved [of l] have m: "table_row_match ?p = table_row_match l"
    by (simp add: single_line [OF nl] one)
  have h: "\<not> has_header [x]" for x by (simp add: has_header_iff)
  show ?thesis
    by (simp add: formatAiMessage_eq js_or_empty_def single_line [OF nl] m block_header_def
        block_body_def h)
qed

lemma ws_not_pipe: "js_whitespace c \<Longrightarrow> c \<noteq> CHR ''|''"
  by (auto simp: js_whitespace_def)

lemma row_no_outer_ws:
  "js_whitespace c \<Longrightarrow> \<not> table_row_match (c # l) \<and> \<not> table_row_match (l @ [c])"
  by (auto simp: table_row_match_iff dest: ws_not_pipe)

lemma escape_char_set: "set (escape_char c) \<subseteq> insert c (set ''&amp;lt;gt;nbsp;'')"
  by (auto simp: escape_char.simps)

lemma escapeHtml_no_angle:
  "CHR ''<'' \<notin> set (escapeHtml s) \<and> CHR ''>'' \<notin> set (escapeHtml s)"
proof (cases s)
  case None
  then show ?thesis by (simp add: escapeHtml_def)
next
  case (Some t)
  have "CHR ''<'' \<notin> set (escape_char c) \<and> CHR ''>'' \<notin> set (escape_char c)" for c
    by (auto simp: escape_char.simps)
  with Some show ?thesis by (auto simp: escapeHtml_def)
qed

lemma escapeHtml_append:
  "escapeHtml (Some (a @ b)) = escapeHtml (Some a) @ escapeHtml (Some b)"
  by (simp add: escapeHtml_def)

lemma escapeHtml_keeps:
  assumes "c \<notin> set ''&amp;lt;gt;nbsp;''" "c \<notin> set x"
  shows "c \<notin> set (escapeHtml (Some x))"
  using assms escape_char_set by (fastforce simp: escapeHtml_def)

lemma escapeHtml_Nil_iff: "escapeHtml (Some x) = [] \<longleftrightarrow> x = []"
  by (cases x) (auto simp: escapeHtml_def escape_char.simps)

lemma bold_match:
  assumes ne: "e \<noteq> []" and ns: "list_all not_star e"
  shows "bold_replace (''**'' @ e @ ''**'' @ r)
     = ''<strong>'' @ e @ ''</strong>'' @ bold_replace r"
proof -
  from ns have all: "\<forall>c\<in>set e. not_star c" by (simp add: list_all_iff)
  have tw: "takeWhile not_star (e @ CHR ''*'' # CHR ''*'' # r) = e"
    using all by (simp add: takeWhile_append2 not_star_def)
  have dw: "dropWhile not_star (e @ CHR ''*'' # CHR ''*'' # r) = CHR ''*'' # CHR ''*'' # r"
    using all by (simp add: dropWhile_append2 not_star_def)
  have "bold_replace (CHR ''*'' # (CHR ''*'' # e @ ''**'' @ r))
      = ''<strong>'' @ e @ ''</strong>'' @ bold_replace r"
    by (subst bold_replace.simps) (simp add: tw dw ne)
  then show ?thesis by simp
qed

lemma bold_skip: "c \<noteq> CHR ''*'' \<Longrightarrow> bold_replace (c # cs) = c # bold_replace cs"
  by simp

lemma js_split_none: "d \<notin> set s \<Longrightarrow> js_split d s = [s]"
  by (induction s) auto

lemma js_split_snoc: "d \<notin> set s \<Longrightarrow> js_split d (s @ [d]) = [s, []]"
  by (induction s) auto

lemma js_trim_id:
  assumes "s \<noteq> []" "\<not> js_whitespace (hd s)" "\<not> js_whitespace (last s)"
  shows "js_trim s = s"
proof -
  from assms have a: "dropWhile js_whitespace s = s" by (cases s) auto
  from assms have "dropWhile js_whitespace (rev s) = rev s"
    by (cases s rule: rev_cases) auto
  with a show ?thesis by (simp add: js_trim_def)
qed

lemma newline_to_br_id: "CHR 0x0A \<notin> set s \<Longrightarrow> newline_to_br s = s"
  by (induction s) (auto simp: newline_to_br_def)

lemma newline_to_br_append: "newline_to_br (a @ b) = newline_to_br a @ newline_to_br b"
  by (simp add: newline_to_br_def)

lemma bold_cell:
  assumes ne: "x \<noteq> []"
    and ok: "list_all (\<lambda>c. c \<notin> set ''*|'' \<and> regex_dot c) x"
  shows "formatAiMessage (Some (''|**'' @ x @ ''**|''))
     = Some (render_table None [[''<strong>'' @ escapeHtml (Some x) @ ''</strong>'']])"
proof -
  let ?l = "''|**'' @ x @ ''**|''"
  let ?e = "escapeHtml (Some x)"
  let ?mid = "''<strong>'' @ ?e @ ''</strong>''"
  from ok have xs: "CHR ''*'' \<notin> set x" "CHR ''|'' \<notin> set x" "CHR 0x0A \<notin> set x"
    "CHR 0x0D \<notin> set x" by (auto simp: list_all_iff regex_dot_def)
  have es: "CHR ''*'' \<notin> set ?e" "CHR ''|'' \<notin> set ?e" "CHR 0x0A \<notin> set ?e"
    by (rule escapeHtml_keeps; use xs in simp)+
  from ne have ene: "?e \<noteq> []" by (simp add: escapeHtml_Nil_iff)
  from es have ens: "list_all not_star ?e" by (auto simp: list_all_iff not_star_def)
  have nl: "CHR 0x0A \<notin> set ?l" using xs by simp
  have row: "table_row_match ?l"
    unfolding table_row_match_iff
    by (rule exI [of _ "''**'' @ x @ ''**''"]) (use xs in \<open>auto simp: regex_dot_def list_all_iff\<close>)
  have "escapeHtml (Some ?l) = CHR ''|'' # (''**'' @ ?e @ ''**'' @ ''|'')"
    by (simp add: escapeHtml_def escape_char.simps)
  then have "bold_replace (escapeHtml (Some ?l)) = CHR ''|'' # bold_replace (''**'' @ ?e @ ''**'' @ ''|'')"
    by simp
  also have "\<dots> = CHR ''|'' # ?mid @ ''|''"
    by (simp only: bold_match [OF ene ens]) simp
  finally have p: "bold_replace (escapeHtml (Some ?l)) = CHR ''|'' # ?mid @ ''|''" .
  have midp: "CHR ''|'' \<notin> set ?mid" using es by simp
  have "js_split (CHR ''|'') (CHR ''|'' # ?mid @ ''|'') = [[], ?mid, []]"
    using js_split_snoc [OF midp] by simp
  then have cells: "row_cells (CHR ''|'' # ?mid @ ''|'') = [js_trim ?mid]"
    by (simp add: row_cells_def js_slice_inner_def)
  have tr: "js_trim ?mid = ?mid"
    by (rule js_trim_id) (simp_all add: js_whitespace_def)
  have br: "newline_to_br (render_table None [[?mid]]) = render_table None [[?mid]]"
    by (rule newline_to_br_id)
      (use es in \<open>simp add: render_table_def row_html_def cell_html_def table_open_def\<close>)
  show ?thesis
    unfolding single_line_format [OF nl] p cells tr using row br by simp
qed

lemma mo_plain: "CHR ''<'' \<notin> set s \<Longrightarrow> CHR ''>'' \<notin> set s \<Longrightarrow> markup_over T s"
  by (induction s) (auto intro: markup_over.intros)

lemma mo_append: "markup_over T a \<Longrightarrow> markup_over T b \<Longrightarrow> markup_over T (a @ b)"
  by (induction rule: markup_over.induct) (auto intro: markup_over.intros)

lemma mo_tag1: "t \<in> set T \<Longrightarrow> markup_over T t"
  using mo_tag [of t T "[]"] by (simp add: mo_empty)

lemma mo_mono: "markup_over T s \<Longrightarrow> set T \<subseteq> set T' \<Longrightarrow> markup_over T' s"
  by (induction rule: markup_over.induct) (auto intro: markup_over.intros)

lemma mo_bold:
  "CHR ''<'' \<notin> set s \<Longrightarrow> CHR ''>'' \<notin> set s \<Longrightarrow> markup_over strong_tags (bold_replace s)"
proof (induction s rule: bold_replace.induct)
  case 1
  show ?case by (simp add: mo_empty)
next
  case (2 c cs)
  let ?X = "takeWhile not_star (drop 1 cs)"
  let ?rest = "drop 2 (dropWhile not_star (drop 1 cs))"
  let ?cond = "c = CHR ''*'' \<and> take 1 cs = ''*'' \<and> ?X \<noteq> []
      \<and> take 2 (dropWhile not_star (drop 1 cs)) = ''**''"
  have sub: "set ?X \<subseteq> set cs" "set ?rest \<subseteq> set cs"
    by (auto dest: set_takeWhileD set_dropWhileD in_set_dropD)
  show ?case
  proof (cases ?cond)
    case True
    from sub "2.prems" have a: "CHR ''<'' \<notin> set ?rest" "CHR ''>'' \<notin> set ?rest"
      "CHR ''<'' \<notin> set ?X" "CHR ''>'' \<notin> set ?X" by auto
    have ih: "markup_over strong_tags (bold_replace ?rest)"
      by (rule "2.IH"(1) [OF True a(1,2)])
    have "markup_over strong_tags (''<strong>'' @ (?X @ (''</strong>'' @ bold_replace ?rest)))"
      by (intro mo_tag mo_append mo_plain a ih) (simp_all add: strong_tags_def)
    with True show ?thesis by simp
  next
    case False
    from "2.prems" have c: "c \<noteq> CHR ''<''" "c \<noteq> CHR ''>''"
      and cs: "CHR ''<'' \<notin> set cs" "CHR ''>'' \<notin> set cs" by auto
    have "markup_over strong_tags (c # bold_replace cs)"
      by (rule mo_char [OF c "2.IH"(2) [OF False cs]])
    with False show ?thesis by auto
  qed
qed

lemma mo_newline_to_br:
  "markup_over T s \<Longrightarrow> (\<And>t. t \<in> set T \<Longrightarrow> CHR 0x0A \<notin> set t) \<Longrightarrow>
   markup_over (''<br>'' # T) (newline_to_br s)"
proof (induction rule: markup_over.induct)
  case mo_empty
  show ?case by (simp add: newline_to_br_def markup_over.mo_empty)
next
  case (mo_char c s)
  from mo_char have ih: "markup_over (''<br>'' # T) (newline_to_br s)" by simp
  show ?case
  proof (cases "c = CHR 0x0A")
    case True
    have "markup_over (''<br>'' # T) (''<br>'' @ newline_to_br s)"
      by (rule mo_tag [OF _ ih]) simp
    with True show ?thesis by (simp add: newline_to_br_def)
  next
    case False
    have "markup_over (''<br>'' # T) (c # newline_to_br s)"
      by (rule markup_over.mo_char [OF mo_char.hyps(1,2) ih])
    with False show ?thesis by (simp add: newline_to_br_def)
  qed
next
  case (mo_tag t s)
  from mo_tag have ih: "markup_over (''<br>'' # T) (newline_to_br s)" by simp
  from mo_tag have "newline_to_br t = t" by (simp add: newline_to_br_id)
  then have "newline_to_br (t @ s) = t @ newline_to_br s" by (simp add: newline_to_br_append)
  moreover have "markup_over (''<br>'' # T) (t @ newline_to_br s)"
    by (rule markup_over.mo_tag [OF _ ih]) (use mo_tag.hyps in simp)
  ultimately show ?case by simp
qed

lemma js_split_prefix:
  "d \<notin> set t \<Longrightarrow> js_split d (t @ s) = (t @ hd (js_split d s)) # tl (js_split d s)"
proof (induction t)
  case Nil
  then show ?case using js_split_neq_Nil [of d s] by simp
next
  case (Cons c t)
  then show ?case by auto
qed

lemma mo_split:
  "markup_over T s \<Longrightarrow> (\<And>t. t \<in> set T \<Longrightarrow> d \<notin> set t) \<Longrightarrow>
   l \<in> set (js_split d s) \<Longrightarrow> markup_over T l"
proof (induction arbitrary: l rule: markup_over.induct)
  case mo_empty
  then show ?case by (simp add: markup_over.mo_empty)
next
  case (mo_char c s)
  obtain x xs where sp: "js_split d s = x # xs"
    using js_split_neq_Nil [of d s] by (cases "js_split d s") auto
  have ih: "markup_over T y" if "y \<in> set (x # xs)" for y
    using mo_char.IH [of y] mo_char.prems(1) that sp by simp
  show ?case
  proof (cases "c = d")
    case True
    with mo_char.prems(2) sp have "l = [] \<or> l \<in> set (x # xs)" by simp
    with ih show ?thesis by (auto intro: markup_over.mo_empty)
  next
    case False
    with mo_char.prems(2) sp have "l = c # x \<or> l \<in> set xs" by simp
    with ih mo_char.hyps(1,2) show ?thesis by (auto intro: markup_over.mo_char)
  qed
next
  case (mo_tag t s)
  obtain x xs where sp: "js_split d s = x # xs"
    using js_split_neq_Nil [of d s] by (cases "js_split d s") auto
  have ih: "markup_over T y" if "y \<in> set (x # xs)" for y
    using mo_tag.IH [of y] mo_tag.prems(1) that sp by simp
  from mo_tag.hyps(1) mo_tag.prems(1) have "d \<notin> set t" by simp
  from js_split_prefix [OF this, of s] sp mo_tag.prems(2)
  have "l = t @ x \<or> l \<in> set xs" by simp
  with ih mo_tag.hyps(1) show ?case by (auto intro: markup_over.mo_tag)
qed

lemma mo_drop_ws:
  "markup_over T s \<Longrightarrow> (\<And>t. t \<in> set T \<Longrightarrow> tag_like t) \<Longrightarrow>
   markup_over T (dropWhile js_whitespace s)"
proof (induction rule: markup_over.induct)
  case mo_empty
  show ?case by (simp add: markup_over.mo_empty)
next
  case (mo_char c s)
  then show ?case by (auto intro: markup_over.mo_char)
next
  case (mo_tag t s)
  from mo_tag.prems [OF mo_tag.hyps(1)] obtain a ts where t: "t = a # ts" and a: "a = CHR ''<''"
    by (cases t) (auto simp: tag_like_def)
  then have "dropWhile js_whitespace (t @ s) = t @ s" by (simp add: js_whitespace_def)
  with mo_tag.hyps show ?case by (simp add: markup_over.mo_tag)
qed

lemma strip_end_append:
  "rev (dropWhile P (rev (a @ b)))
     = (if \<forall>x\<in>set b. P x then rev (dropWhile P (rev a)) else a @ rev (dropWhile P (rev b)))"
proof (cases "\<forall>x\<in>set b. P x")
  case True
  then have "dropWhile P (rev b @ rev a) = dropWhile P (rev a)"
    by (intro dropWhile_append2) simp
  with True show ?thesis by simp
next
  case False
  then obtain x where "x \<in> set (rev b)" "\<not> P x" by auto
  then have "dropWhile P (rev b @ rev a) = dropWhile P (rev b) @ rev a"
    by (rule dropWhile_append1)
  with False show ?thesis by auto
qed

lemma mo_drop_ws_end:
  "markup_over T s \<Longrightarrow> (\<And>t. t \<in> set T \<Longrightarrow> tag_like t) \<Longrightarrow>
   markup_over T (rev (dropWhile js_whitespace (rev s)))"
proof (induction rule: markup_over.induct)
  case mo_empty
  show ?case by (simp add: markup_over.mo_empty)
next
  case (mo_char c s)
  from mo_char have ih: "markup_over T (rev (dropWhile js_whitespace (rev s)))" by simp
  have one: "markup_over T (rev (dropWhile js_whitespace (rev [c])))"
    using mo_char.hyps(1,2) by (auto intro: markup_over.intros)
  have "markup_over T (rev (dropWhile js_whitespace (rev ([c] @ s))))"
    unfolding strip_end_append [of js_whitespace "[c]" s]
    using one ih mo_char.hyps(1,2) by (auto intro: markup_over.mo_char)
  then show ?case by simp
next
  case (mo_tag t s)
  from mo_tag have ih: "markup_over T (rev (dropWhile js_whitespace (rev s)))" by simp
  from mo_tag.prems [OF mo_tag.hyps(1)] have tl: "t \<noteq> []" "last t = CHR ''>''"
    by (simp_all add: tag_like_def)
  then obtain ts where t: "t = ts @ ''>''" by (cases t rule: rev_cases) auto
  have keep: "rev (dropWhile js_whitespace (rev t)) = t"
    by (simp add: t js_whitespace_def)
  show ?case
    unfolding strip_end_append [of js_whitespace t s] keep
    using ih mo_tag.hyps(1) mo_tag1 [OF mo_tag.hyps(1)] by (auto intro: markup_over.mo_tag)
qed

lemma mo_trim:
  "markup_over T s \<Longrightarrow> (\<And>t. t \<in> set T \<Longrightarrow> tag_like t) \<Longrightarrow> markup_over T (js_trim s)"
  unfolding js_trim_def by (intro mo_drop_ws_end mo_drop_ws)

lemma strong_tag_like: "t \<in> set strong_tags \<Longrightarrow> tag_like t"
  by (auto simp: strong_tags_def tag_like_def)

lemma mo_row_cells:
  assumes "markup_over strong_tags l" "x \<in> set (row_cells l)"
  shows "markup_over strong_tags x"
proof -
  from assms(2) obtain p where pb: "p \<in> set (butlast (tl (js_split (CHR ''|'') l)))"
    and x: "x = js_trim p"
    by (auto simp: row_cells_def js_slice_inner_def)
  from pb have "p \<in> set (tl (js_split (CHR ''|'') l))" by (rule in_set_butlastD)
  then have p: "p \<in> set (js_split (CHR ''|'') l)"
    by (cases "js_split (CHR ''|'') l") auto
  have "markup_over strong_tags p"
    by (rule mo_split [OF assms(1) _ p]) (auto simp: strong_tags_def)
  then show ?thesis unfolding x by (rule mo_trim) (rule strong_tag_like)
qed

lemma mo_concat: "(\<And>x. x \<in> set xs \<Longrightarrow> markup_over T x) \<Longrightarrow> markup_over T (concat xs)"
  by (induction xs) (auto intro: mo_append markup_over.mo_empty)

lemma mo_cell:
  assumes "markup_over strong_tags x" "tag = ''th'' \<or> tag = ''td''"
  shows "markup_over (table_tags @ strong_tags) (cell_html tag x)"
proof -
  let ?T = "table_tags @ strong_tags"
  have x: "markup_over ?T x" by (rule mo_mono [OF assms(1)]) simp
  from assms(2) show ?thesis
  proof
    assume t: "tag = ''th''"
    have "markup_over ?T (''<th>'' @ (x @ ''</th>''))"
      by (intro mo_tag mo_append x mo_tag1) (simp_all add: table_tags_def)
    then show ?thesis by (simp add: cell_html_def t)
  next
    assume t: "tag = ''td''"
    have "markup_over ?T (''<td>'' @ (x @ ''</td>''))"
      by (intro mo_tag mo_append x mo_tag1) (simp_all add: table_tags_def)
    then show ?thesis by (simp add: cell_html_def t)
  qed
qed

lemma mo_row:
  assumes "\<And>x. x \<in> set cells \<Longrightarrow> markup_over strong_tags x" "tag = ''th'' \<or> tag = ''td''"
  shows "markup_over (table_tags @ strong_tags) (row_html tag cells)"
proof -
  let ?T = "table_tags @ strong_tags"
  have mid: "markup_over ?T (concat (map (cell_html tag) cells))"
    by (rule mo_concat) (use assms in \<open>auto intro: mo_cell\<close>)
  have close: "markup_over ?T ''</tr>''"
    by (rule mo_tag1) (simp add: table_tags_def)
  have "markup_over ?T (''<tr>'' @ (concat (map (cell_html tag) cells) @ ''</tr>''))"
    by (rule mo_tag [OF _ mo_append [OF mid close]]) (simp add: table_tags_def)
  then show ?thesis by (simp add: row_html_def)
qed

lemma mo_render_table:
  assumes h: "\<And>cells x. header = Some cells \<Longrightarrow> x \<in> set cells \<Longrightarrow> markup_over strong_tags x"
    and b: "\<And>cells x. cells \<in> set body \<Longrightarrow> x \<in> set cells \<Longrightarrow> markup_over strong_tags x"
  shows "markup_over (table_tags @ strong_tags) (render_table header body)"
proof -
  let ?T = "table_tags @ strong_tags"
  have hd: "markup_over ?T (case header of None \<Rightarrow> [] | Some c \<Rightarrow> row_html ''th'' c)"
    using h by (cases header) (auto intro: mo_row markup_over.mo_empty)
  have bd: "markup_over ?T (concat (map (row_html ''td'') body))"
    by (rule mo_concat) (use b in \<open>auto intro: mo_row\<close>)
  have "markup_over ?T (table_open @ ((case header of None \<Rightarrow> [] | Some c \<Rightarrow> row_html ''th'' c)
      @ (concat (map (row_html ''td'') body) @ ''</table>'')))"
    by (intro mo_tag mo_append hd bd mo_tag1) (simp_all add: table_tags_def)
  then show ?thesis by (simp add: render_table_def)
qed

lemma mo_block:
  assumes "\<And>l. l \<in> set rows \<Longrightarrow> markup_over strong_tags l" "rows \<noteq> []"
  shows "markup_over (table_tags @ strong_tags) (render_table (block_header rows) (block_body rows))"
proof (rule mo_render_table)
  fix cells x
  assume "block_header rows = Some cells" "x \<in> set cells"
  then have "x \<in> set (row_cells (hd rows))" by (auto simp: block_header_def split: if_splits)
  moreover have "markup_over strong_tags (hd rows)" using assms by simp
  ultimately show "markup_over strong_tags x" by (rule mo_row_cells [rotated])
next
  fix cells x
  assume "cells \<in> set (block_body rows)" "x \<in> set cells"
  then obtain l where "l \<in> set rows" "x \<in> set (row_cells l)"
    by (auto simp: block_body_def split: if_splits dest: in_set_dropD)
  with assms(1) show "markup_over strong_tags x" by (auto intro: mo_row_cells)
qed

lemma mo_blocks:
  "(\<And>l. l \<in> set ls \<Longrightarrow> markup_over strong_tags l) \<Longrightarrow> x \<in> set (blocks ls) \<Longrightarrow>
   markup_over (table_tags @ strong_tags) x"
proof (induction ls arbitrary: x rule: blocks.induct)
  case 1
  then show ?case by simp
next
  case (2 l ls)
  show ?case
  proof (cases "table_row_match l")
    case True
    let ?rows = "l # takeWhile table_row_match ls"
    from True "2.prems"(2) have "x = render_table (block_header ?rows) (block_body ?rows)
        \<or> x \<in> set (blocks (dropWhile table_row_match ls))" by simp
    then show ?thesis
    proof
      assume x: "x = render_table (block_header ?rows) (block_body ?rows)"
      show ?thesis unfolding x
        by (rule mo_block) (use "2.prems"(1) in \<open>auto dest: set_takeWhileD\<close>)
    next
      assume "x \<in> set (blocks (dropWhile table_row_match ls))"
      then show ?thesis
        by (rule "2.IH"(1) [OF True, rotated]) (use "2.prems"(1) in \<open>auto dest: set_dropWhileD\<close>)
    qed
  next
    case False
    with "2.prems"(2) have "x = l \<or> x \<in> set (blocks ls)" by simp
    then show ?thesis
    proof
      assume "x = l"
      with "2.prems"(1) have "markup_over strong_tags x" by simp
      then show ?thesis by (rule mo_mono) simp
    next
      assume "x \<in> set (blocks ls)"
      then show ?thesis by (rule "2.IH"(2) [OF False, rotated]) (use "2.prems"(1) in auto)
    qed
  qed
qed

lemma mo_join:
  "(\<And>x. x \<in> set xs \<Longrightarrow> markup_over T x) \<Longrightarrow> markup_over T (js_join [CHR 0x0A] xs)"
proof (induction "[CHR 0x0A]" xs rule: js_join.induct)
  case 1
  show ?case by (simp add: markup_over.mo_empty)
next
  case (2 x)
  then show ?case by simp
next
  case (3 x y ys)
  have "markup_over T (x @ (CHR 0x0A # js_join [CHR 0x0A] (y # ys)))"
    by (intro mo_append mo_char) (use 3 in auto)
  then show ?case by simp
qed

lemma mo_scanned_lines:
  assumes "l \<in> set (js_split (CHR 0x0A) (bold_replace (escapeHtml s)))"
  shows "markup_over strong_tags l"
proof -
  have "markup_over strong_tags (bold_replace (escapeHtml s))"
    by (rule mo_bold) (simp_all add: escapeHtml_no_angle)
  then show ?thesis
    by (rule mo_split [OF _ _ assms]) (auto simp: strong_tags_def)
qed

lemma mo_formatAiMessage:
  "\<exists>out. formatAiMessage raw = Some out \<and> markup_over chat_tags out"
proof -
  let ?lines = "js_split (CHR 0x0A) (bold_replace (escapeHtml (Some (js_or_empty raw))))"
  have "markup_over (table_tags @ strong_tags) (js_join [CHR 0x0A] (blocks ?lines))"
    by (rule mo_join) (auto intro: mo_blocks mo_scanned_lines)
  then have "markup_over (''<br>'' # table_tags @ strong_tags)
      (newline_to_br (js_join [CHR 0x0A] (blocks ?lines)))"
    by (rule mo_newline_to_br) (auto simp: table_tags_def strong_tags_def table_open_def)
  then show ?thesis by (simp add: formatAiMessage_eq chat_tags_def)
qed

lemma mo_text_only:
  "markup_over text_tags (newline_to_br (bold_replace (escapeHtml s)))"
proof -
  have "markup_over strong_tags (bold_replace (escapeHtml s))"
    by (rule mo_bold) (simp_all add: escapeHtml_no_angle)
  then have "markup_over (''<br>'' # strong_tags) (newline_to_br (bold_replace (escapeHtml s)))"
    by (rule mo_newline_to_br) (auto simp: strong_tags_def)
  then show ?thesis by (simp add: text_tags_def)
qed

section \<open>Claims about the chat formatter\<close>

text \<open>
  Claim C1, as amended. A captured block of rows has a header exactly when it has at least two
  rows and its second row, with all whitespace removed, is a pipe, then one or more pipes,
  dashes and colons, then a pipe. Then the second row is dropped and the cells of the first
  row are header cells; otherwise every row is a body row. The two inputs of the
  specification give the tables it names: header A, B with the body row 1, 2, and no header
  with the body rows A, B and 1, 2.
\<close>

theorem C1_header_iff_separator_row:
  \<open>(has_header tableRows \<longleftrightarrow>
      2 \<le> length tableRows \<and>
      (\<exists>m. m \<noteq> [] \<and> list_all separator_char m
           \<and> remove_whitespace (tableRows ! 1) = CHR ''|'' # m @ ''|''))
   \<and> table_html tableRows
       = Some (render_table
           (if has_header tableRows then Some (row_cells (hd tableRows)) else None)
           (map row_cells (if has_header tableRows then drop 2 tableRows else tableRows)))
   \<and> formatAiMessage (Some ''|A|B|\<newline>|--|--|\<newline>|1|2|'')
       = Some (render_table (Some [''A'', ''B'']) [[''1'', ''2'']])
   \<and> render_table (Some [''A'', ''B'']) [[''1'', ''2'']]
       = ''<table class="chat-table"><tr><th>A</th><th>B</th></tr><tr><td>1</td><td>2</td></tr></table>''
   \<and> formatAiMessage (Some ''|A|B|\<newline>|1|2|'')
       = Some (render_table None [[''A'', ''B''], [''1'', ''2'']])
   \<and> render_table None [[''A'', ''B''], [''1'', ''2'']]
       = ''<table class="chat-table"><tr><td>A</td><td>B</td></tr><tr><td>1</td><td>2</td></tr></table>''\<close>
proof -
  have a: "has_header tableRows \<longleftrightarrow>
      2 \<le> length tableRows \<and>
      (\<exists>m. m \<noteq> [] \<and> list_all separator_char m
           \<and> remove_whitespace (tableRows ! 1) = CHR ''|'' # m @ ''|'')"
    unfolding has_header_iff separator_match_iff by blast
  have b: "table_html tableRows
       = Some (render_table
           (if has_header tableRows then Some (row_cells (hd tableRows)) else None)
           (map row_cells (if has_header tableRows then drop 2 tableRows else tableRows)))"
    by (simp add: table_html_eq block_header_def block_body_def)
  have c: "formatAiMessage (Some ''|A|B|\<newline>|--|--|\<newline>|1|2|'')
       = Some (render_table (Some [''A'', ''B'']) [[''1'', ''2'']])"
    by code_simp
  have d: \<open>render_table (Some [''A'', ''B'']) [[''1'', ''2'']]
       = ''<table class="chat-table"><tr><th>A</th><th>B</th></tr><tr><td>1</td><td>2</td></tr></table>''\<close>
    by code_simp
  have e: "formatAiMessage (Some ''|A|B|\<newline>|1|2|'')
       = Some (render_table None [[''A'', ''B''], [''1'', ''2'']])"
    by code_simp
  have f: \<open>render_table None [[''A'', ''B''], [''1'', ''2'']]
       = ''<table class="chat-table"><tr><td>A</td><td>B</td></tr><tr><td>1</td><td>2</td></tr></table>''\<close>
    by code_simp
  from a b c d e f show ?thesis by (simp only: simp_thms)
qed

text \<open>
  Claim C1 as it is worded asks only that the second row, without its whitespace, consists
  of pipes, dashes and colons. A second row that is a space between two pipes meets that
  wording (without the space it is two pipes), yet the separator test wants at least one
  character between the outer pipes: the block has no header, and the row stays in the body
  as one empty cell.
\<close>

theorem C1_blank_second_row_counterexample:
  "\<not> (has_header [''|A|'', ''| |'']
        \<longleftrightarrow> 2 \<le> length [''|A|'', ''| |''] \<and> spec_separator_shape ([''|A|'', ''| |''] ! 1))
   \<and> formatAiMessage (Some ''|A|\<newline>| |'') = Some (render_table None [[''A''], [[]]])"
  by code_simp

text \<open>
  Claim C2, as amended. The parser takes a line for a table row exactly when the line as it
  stands, with nothing trimmed, is a pipe, then at least one character, none of them a line
  terminator (a carriage return), then a pipe. Escaping and the bold substitution do not
  change which lines of the message are rows. A message of one line becomes a table when the
  line is a row and plain text otherwise, and a line that begins or ends with a whitespace
  character is never a row.
\<close>

theorem C2_row_shape_untrimmed:
  "(table_row_match l \<longleftrightarrow>
      (\<exists>m. m \<noteq> [] \<and> list_all regex_dot m \<and> l = CHR ''|'' # m @ ''|''))
   \<and> (\<forall>c. regex_dot c \<longleftrightarrow> c \<noteq> CHR 0x0A \<and> c \<noteq> CHR 0x0D)
   \<and> map table_row_match (js_split (CHR 0x0A) (bold_replace (escapeHtml (Some raw))))
       = map table_row_match (js_split (CHR 0x0A) raw)
   \<and> (CHR 0x0A \<notin> set l \<longrightarrow>
        formatAiMessage (Some l)
          = Some (newline_to_br
              (if table_row_match l
               then render_table None [row_cells (bold_replace (escapeHtml (Some l)))]
               else bold_replace (escapeHtml (Some l)))))
   \<and> (js_whitespace c \<longrightarrow> \<not> table_row_match (c # l) \<and> \<not> table_row_match (l @ [c]))"
proof -
  have a: "table_row_match l \<longleftrightarrow>
      (\<exists>m. m \<noteq> [] \<and> list_all regex_dot m \<and> l = CHR ''|'' # m @ ''|'')"
    unfolding table_row_match_iff by blast
  have b: "\<forall>c. regex_dot c \<longleftrightarrow> c \<noteq> CHR 0x0A \<and> c \<noteq> CHR 0x0D"
    by (simp add: regex_dot_def)
  note c = row_flags_preserved [of raw]
  from a b c single_line_format [of l] row_no_outer_ws [of c l] show ?thesis by blast
qed

text \<open>Claim C2, as amended, at the line \<^verbatim>\<open>|a|\<close>, and at that line with a space put before or after.\<close>

theorem C2_row_shape_untrimmed_witness:
  "table_row_match ''|a|'' \<and> CHR 0x0A \<notin> set ''|a|''
   \<and> formatAiMessage (Some ''|a|'') = Some (render_table None [[''a'']])
   \<and> js_whitespace (CHR '' '') \<and> \<not> table_row_match ('' '' @ ''|a|'')
   \<and> \<not> table_row_match (''|a|'' @ '' '')"
proof -
  have nl: "CHR 0x0A \<notin> set ''|a|''" by simp
  have ws: "js_whitespace (CHR '' '')" by (simp add: js_whitespace_def)
  have row: "table_row_match ''|a|''" by code_simp
  have cells: "newline_to_br (render_table None [row_cells (bold_replace (escapeHtml (Some ''|a|'')))])
      = render_table None [[''a'']]" by code_simp
  from C2_row_shape_untrimmed [of "''|a|''" "''|a|''" "CHR '' ''"] nl ws row cells
  show ?thesis by simp
qed

text \<open>
  Claim C2 as it is worded tests the line after trimming. The line \<^verbatim>\<open>|a|\<close> with a space
  on each side has the row shape once trimmed, but the parser tests the line itself: it is
  passed on as text, while \<^verbatim>\<open>|a|\<close> alone becomes a table. A carriage return inside the line
  also keeps it from being a row.
\<close>

theorem C2_trimmed_shape_counterexample:
  "spec_row_shape '' |a| '' \<and> \<not> table_row_match '' |a| ''
   \<and> formatAiMessage (Some '' |a| '') = Some '' |a| ''
   \<and> formatAiMessage (Some ''|a|'') = Some (render_table None [[''a'']])
   \<and> spec_row_shape [CHR ''|'', CHR ''a'', CHR 0x0D, CHR ''b'', CHR ''|'']
   \<and> \<not> table_row_match [CHR ''|'', CHR ''a'', CHR 0x0D, CHR ''b'', CHR ''|'']"
  by code_simp

text \<open>
  Claim C3. The formatter returns markup for every input, also for null. When no line of the
  input is a table row, the loop appends every line as it is and no table, and the result is
  the whole input escaped, with the bold substitution and the line breaks converted: a text
  whose only tags are those of strong emphasis and of the line break.
\<close>

theorem C3_no_rows_plain_text:
  "(\<exists>out. formatAiMessage raw = Some out)
   \<and> ((\<forall>l \<in> set (js_split (CHR 0x0A) (js_or_empty raw)). \<not> table_row_match l) \<longrightarrow>
        scan_lines (js_split (CHR 0x0A) (bold_replace (escapeHtml (Some (js_or_empty raw))))) 0 []
          = Some (js_split (CHR 0x0A) (bold_replace (escapeHtml (Some (js_or_empty raw)))))
        \<and> formatAiMessage raw
          = Some (newline_to_br (bold_replace (escapeHtml (Some (js_or_empty raw)))))
        \<and> markup_over text_tags
            (newline_to_br (bold_replace (escapeHtml (Some (js_or_empty raw))))))"
proof -
  let ?s = "js_or_empty raw"
  let ?lines = "js_split (CHR 0x0A) (bold_replace (escapeHtml (Some ?s)))"
  have total: "\<exists>out. formatAiMessage raw = Some out" by (simp add: formatAiMessage_eq)
  have plain: "scan_lines ?lines 0 [] = Some ?lines
      \<and> formatAiMessage raw = Some (newline_to_br (bold_replace (escapeHtml (Some ?s))))
      \<and> markup_over text_tags (newline_to_br (bold_replace (escapeHtml (Some ?s))))"
    if no: "\<forall>l \<in> set (js_split (CHR 0x0A) ?s). \<not> table_row_match l"
  proof -
    from no have "list_all (\<lambda>b. \<not> b) (map table_row_match (js_split (CHR 0x0A) ?s))"
      by (simp add: list_all_iff)
    then have "list_all (\<lambda>b. \<not> b) (map table_row_match ?lines)"
      by (simp only: row_flags_preserved)
    then have "list_all (\<lambda>l. \<not> table_row_match l) ?lines" by (simp add: list_all_iff)
    then have b: "blocks ?lines = ?lines" by (rule blocks_no_rows)
    show ?thesis by (simp add: formatAiMessage_eq scan_lines_eq b js_join_split mo_text_only)
  qed
  from total plain show ?thesis by blast
qed

text \<open>
  Claim C3 at a message of two lines with pipes that form no row and with markup in the
  text.
\<close>

theorem C3_no_rows_plain_text_witness:
  "list_all (\<lambda>l. \<not> table_row_match l) (js_split (CHR 0x0A) ''a | b\<newline>|x <i>'')
   \<and> formatAiMessage (Some ''a | b\<newline>|x <i>'') = Some ''a | b<br>|x &lt;i&gt;''"
proof -
  have h: "\<forall>l \<in> set (js_split (CHR 0x0A) (js_or_empty (Some ''a | b\<newline>|x <i>''))). \<not> table_row_match l"
    by code_simp
  have v: "newline_to_br (bold_replace (escapeHtml (Some (js_or_empty (Some ''a | b\<newline>|x <i>'')))))
      = ''a | b<br>|x &lt;i&gt;''" by code_simp
  have h': "list_all (\<lambda>l. \<not> table_row_match l) (js_split (CHR 0x0A) ''a | b\<newline>|x <i>'')"
    by code_simp
  from C3_no_rows_plain_text [of "Some ''a | b\<newline>|x <i>''"] h h' v show ?thesis by simp
qed

text \<open>
  Claim C4. The text is escaped first: after escaping it has no angle bracket left, so every
  angle bracket of the result, for any input, belongs to a tag the formatter writes itself
  (strong emphasis, line break, table, row, cell). The substitution then
  wraps the escaped content of a pair of double asterisks in strong-emphasis tags, and these
  tags are not escaped. \<^verbatim>\<open>**x**\<close> gives strong emphasis around x, \<^verbatim>\<open><b>\<close> gives the escaped
  literal text.
\<close>

theorem C4_escape_before_bold:
  \<open>(CHR ''<'' \<notin> set (escapeHtml s) \<and> CHR ''>'' \<notin> set (escapeHtml s))
   \<and> (\<exists>out. formatAiMessage raw = Some out \<and> markup_over chat_tags out)
   \<and> (x \<noteq> [] \<and> list_all not_star x \<longrightarrow>
        bold_replace (escapeHtml (Some (''**'' @ x @ ''**'')))
          = ''<strong>'' @ escapeHtml (Some x) @ ''</strong>'')
   \<and> formatAiMessage (Some ''**x**'') = Some ''<strong>x</strong>''
   \<and> formatAiMessage (Some ''<b>'') = Some ''&lt;b&gt;''
   \<and> formatAiMessage (Some ''**<b>**'') = Some ''<strong>&lt;b&gt;</strong>''
   \<and> formatAiMessage (Some ''<table class="chat-table">'')
        = Some ''&lt;table class="chat-table"&gt;''\<close>
proof -
  have b: "bold_replace (escapeHtml (Some (''**'' @ x @ ''**'')))
          = ''<strong>'' @ escapeHtml (Some x) @ ''</strong>''"
    if ne: "x \<noteq> []" and ns: "list_all not_star x"
  proof -
    let ?e = "escapeHtml (Some x)"
    from ne have ene: "?e \<noteq> []" by (simp add: escapeHtml_Nil_iff)
    have "CHR ''*'' \<notin> set ?e"
      by (rule escapeHtml_keeps) (use ns in \<open>auto simp: list_all_iff not_star_def\<close>)
    then have ens: "list_all not_star ?e" by (auto simp: list_all_iff not_star_def)
    have "escapeHtml (Some (''**'' @ x @ ''**'')) = ''**'' @ ?e @ ''**'' @ []"
      by (simp add: escapeHtml_def escape_char.simps)
    then show ?thesis using bold_match [OF ene ens, of "[]"] by simp
  qed
  have c: "formatAiMessage (Some ''**x**'') = Some ''<strong>x</strong>''" by code_simp
  have d: "formatAiMessage (Some ''<b>'') = Some ''&lt;b&gt;''" by code_simp
  have e: "formatAiMessage (Some ''**<b>**'') = Some ''<strong>&lt;b&gt;</strong>''" by code_simp
  have f: \<open>formatAiMessage (Some ''<table class="chat-table">'')
        = Some ''&lt;table class="chat-table"&gt;''\<close> by code_simp
  from escapeHtml_no_angle [of s] mo_formatAiMessage [of raw] b c d e f show ?thesis by blast
qed

text \<open>Claim C4 at a bold pair whose content is itself markup.\<close>

theorem C4_escape_before_bold_witness:
  "''<i>'' \<noteq> [] \<and> list_all not_star ''<i>''
   \<and> bold_replace (escapeHtml (Some ''**<i>**'')) = ''<strong>&lt;i&gt;</strong>''"
proof -
  have h: "''<i>'' \<noteq> [] \<and> list_all not_star ''<i>''" by (simp add: not_star_def)
  have v: "escapeHtml (Some ''<i>'') = ''&lt;i&gt;''" by code_simp
  from C4_escape_before_bold [where x = "''<i>''"] h v show ?thesis by simp
qed

text \<open>
  Claim C10. The tables are built from the lines of the text after the bold substitution,
  which runs over the whole escaped message. A pair of double asterisks inside a table row
  therefore becomes strong emphasis inside the cell, in a body cell and in a header cell.
\<close>

theorem C10_bold_inside_table_cells:
  \<open>formatAiMessage raw
     = Some (newline_to_br (js_join [CHR 0x0A]
         (blocks (js_split (CHR 0x0A) (bold_replace (escapeHtml (Some (js_or_empty raw))))))))
   \<and> (x \<noteq> [] \<and> list_all (\<lambda>c. c \<notin> set ''*|'' \<and> regex_dot c) x \<longrightarrow>
        formatAiMessage (Some (''|**'' @ x @ ''**|''))
          = Some (render_table None [[''<strong>'' @ escapeHtml (Some x) @ ''</strong>'']]))
   \<and> formatAiMessage (Some ''|**Name**|'')
        = Some ''<table class="chat-table"><tr><td><strong>Name</strong></td></tr></table>''
   \<and> formatAiMessage (Some ''|**A**|B|\<newline>|--|--|\<newline>|1|**2**|'')
        = Some (render_table (Some [''<strong>A</strong>'', ''B''])
                  [[''1'', ''<strong>2</strong>'']])\<close>
proof -
  have c: \<open>formatAiMessage (Some ''|**Name**|'')
        = Some ''<table class="chat-table"><tr><td><strong>Name</strong></td></tr></table>''\<close>
    by code_simp
  have d: "formatAiMessage (Some ''|**A**|B|\<newline>|--|--|\<newline>|1|**2**|'')
        = Some (render_table (Some [''<strong>A</strong>'', ''B''])
                  [[''1'', ''<strong>2</strong>'']])"
    by code_simp
  from formatAiMessage_eq [of raw] bold_cell [of x] c d show ?thesis by blast
qed

text \<open>Claim C10 at a row whose bold content holds a character that is escaped.\<close>

theorem C10_bold_inside_table_cells_witness:
  \<open>''a<b'' \<noteq> [] \<and> list_all (\<lambda>c. c \<notin> set ''*|'' \<and> regex_dot c) ''a<b''
   \<and> formatAiMessage (Some ''|**a<b**|'')
       = Some ''<table class="chat-table"><tr><td><strong>a&lt;b</strong></td></tr></table>''\<close>
proof -
  have h: "''a<b'' \<noteq> [] \<and> list_all (\<lambda>c. c \<notin> set ''*|'' \<and> regex_dot c) ''a<b''"
    by (simp add: regex_dot_def)
  have v: \<open>render_table None [[''<strong>'' @ escapeHtml (Some ''a<b'') @ ''</strong>'']]
      = ''<table class="chat-table"><tr><td><strong>a&lt;b</strong></td></tr></table>''\<close>
    by code_simp
  from C10_bold_inside_table_cells [of None "''a<b''"] h v show ?thesis by simp
qed

section \<open>Claims about the mark-attendance page\<close>

lemma updateMarkSummary_fields:
  "markAttendanceStudents (updateMarkSummary st) = markAttendanceStudents st"
  "markSummary (updateMarkSummary st) = summary_of (markAttendanceStudents st)"
  by (simp_all add: updateMarkSummary_def summary_of_def Let_def)

lemma renderMarkTable_fields:
  "markAttendanceStudents (renderMarkTable st) = markAttendanceStudents st"
  "markSummary (renderMarkTable st) = markSummary st"
  "markSummary_shown (renderMarkTable st) = markSummary_shown st"
  by (simp_all add: renderMarkTable_def Let_def)

lemma renderMarkTable_only_tbody:
  "renderMarkTable st = st\<lparr>markTbody := markTbody (renderMarkTable st)\<rparr>"
  by (simp add: renderMarkTable_def Let_def)

lemma toggle_click_summary:
  "markSummary st = summary_of (markAttendanceStudents st) \<Longrightarrow>
   markSummary (toggle_click k st) = summary_of (markAttendanceStudents (toggle_click k st))"
  by (simp add: toggle_click_def updateMarkSummary_fields split: option.splits)

lemma edit_step_summary:
  assumes "toggle_or_bulk e" "markSummary st = summary_of (markAttendanceStudents st)"
  shows "markSummary (mark_step e st) = summary_of (markAttendanceStudents (mark_step e st))"
  using assms
  by (cases e)
    (simp_all add: toggle_or_bulk_def toggle_click_summary mark_all_def updateMarkSummary_fields
      filterMarkTable_def renderMarkTable_fields)

lemma edit_run_summary:
  "list_all toggle_or_bulk events \<Longrightarrow> markSummary st = summary_of (markAttendanceStudents st) \<Longrightarrow>
   markSummary (mark_run events st) = summary_of (markAttendanceStudents (mark_run events st))"
proof (induction events arbitrary: st)
  case Nil
  then show ?case by (simp add: mark_run_def)
next
  case (Cons e events)
  from Cons.prems have "markSummary (mark_step e st) = summary_of (markAttendanceStudents (mark_step e st))"
    by (simp add: edit_step_summary)
  with Cons.prems Cons.IH [of "mark_step e st"] show ?case by (simp add: mark_run_def)
qed

lemma load_ok_summary:
  "markSummary (load_ok students st) = summary_of (markAttendanceStudents (load_ok students st))"
  by (simp add: load_ok_def Let_def updateMarkSummary_fields renderMarkTable_fields)

lemma toggle_first_two_valued: "two_valued roster \<Longrightarrow> two_valued (toggle_first i roster)"
  by (induction roster) (auto simp: two_valued_def)

lemma edit_step_two_valued:
  assumes "toggle_or_bulk e" "two_valued (markAttendanceStudents st)"
  shows "two_valued (markAttendanceStudents (mark_step e st))"
proof (cases e)
  case (ClickToggle k)
  with assms toggle_first_two_valued show ?thesis
    by (auto simp: toggle_click_def updateMarkSummary_fields split: option.splits)
next
  case ClickAllPresent
  then show ?thesis
    by (simp add: mark_all_def updateMarkSummary_fields renderMarkTable_fields two_valued_def
        list_all_iff)
next
  case ClickAllAbsent
  then show ?thesis
    by (simp add: mark_all_def updateMarkSummary_fields renderMarkTable_fields two_valued_def
        list_all_iff)
next
  case (SearchInput v)
  with assms show ?thesis by (simp add: filterMarkTable_def renderMarkTable_fields)
qed (use assms in \<open>simp_all add: toggle_or_bulk_def\<close>)

lemma edit_run_two_valued:
  "list_all toggle_or_bulk events \<Longrightarrow> two_valued (markAttendanceStudents st) \<Longrightarrow>
   two_valued (markAttendanceStudents (mark_run events st))"
proof (induction events arbitrary: st)
  case Nil
  then show ?case by (simp add: mark_run_def)
next
  case (Cons e events)
  from Cons.prems have "two_valued (markAttendanceStudents (mark_step e st))"
    by (simp add: edit_step_two_valued)
  with Cons.prems Cons.IH [of "mark_step e st"] show ?case by (simp add: mark_run_def)
qed

lemma two_valued_absent:
  "two_valued roster \<Longrightarrow>
   int (length roster) - int (length (filter (\<lambda>s. status s = ''present'') roster))
     = int (length (filter (\<lambda>s. status s = ''absent'') roster))"
  by (induction roster) (auto simp: two_valued_def)

lemma absent_ids_set:
  "set (absent_ids roster) = student_id ` {s \<in> set roster. status s = ''absent''}"
  by (auto simp: absent_ids_def)

lemma absent_ids_distinct:
  assumes d: "distinct (map student_id roster)" and s: "s \<in> set roster"
  shows "student_id s \<in> set (absent_ids roster) \<longleftrightarrow> status s = ''absent''"
proof
  assume "student_id s \<in> set (absent_ids roster)"
  then obtain s' where s': "s' \<in> set roster" "status s' = ''absent''"
    "student_id s' = student_id s" by (auto simp: absent_ids_set)
  from d s s'(1,3) have "s' = s" by (meson distinct_map inj_onD)
  with s'(2) show "status s = ''absent''" by simp
next
  assume "status s = ''absent''"
  with s show "student_id s \<in> set (absent_ids roster)" by (auto simp: absent_ids_set)
qed

text \<open>
  Claim C5, as amended. The save sends exactly the ids of the students whose status in the
  roster is absent: an id is in the list exactly when a student of the roster with that id
  is absent, and with one entry per id the id of a present student is never sent. Without a
  complete key nothing is sent. After a successful save the load runs again and takes its
  key from the section, date and session controls as they stand then: while the controls
  still hold the key that was saved, the reload is for that key; with the section or the
  date control empty no reload is sent.
\<close>

theorem C5_save_sends_absent_ids_and_reloads_form_key:
  "(i \<in> set (absent_ids roster) \<longleftrightarrow> (\<exists>s. s \<in> set roster \<and> student_id s = i \<and> status s = ''absent''))
   \<and> (distinct (map student_id roster) \<and> s \<in> set roster \<longrightarrow>
        (student_id s \<in> set (absent_ids roster) \<longleftrightarrow> status s = ''absent'')
        \<and> (status s = ''present'' \<longrightarrow> student_id s \<notin> set (absent_ids roster)))
   \<and> (currentMarkSectionId st = Some sectionId \<and> currentMarkDate st = Some date
        \<and> currentMarkSession st = Some session
        \<and> sectionId \<noteq> 0 \<and> date \<noteq> [] \<and> session \<noteq> [] \<longrightarrow>
        mark_requests (saveMarkAttendance st)
          = mark_requests st
              @ [PostAttendance date sectionId session (absent_ids (markAttendanceStudents st))]
        \<and> (markSection st = Some sectionId \<and> markDate st = date \<and> markSession st = session \<longrightarrow>
             mark_requests (save_ok (saveMarkAttendance st))
               = mark_requests st
                   @ [PostAttendance date sectionId session (absent_ids (markAttendanceStudents st)),
                      GetAttendance date sectionId session]))
   \<and> (\<not> valid_key (currentMarkSectionId st) (currentMarkDate st) (currentMarkSession st) \<longrightarrow>
        saveMarkAttendance st = st)
   \<and> (markSection st = Some formSection \<and> formSection \<noteq> 0 \<and> markDate st \<noteq> [] \<longrightarrow>
        mark_requests (save_ok st)
          = mark_requests st @ [GetAttendance (markDate st) formSection (markSession st)])
   \<and> (falsy_id (markSection st) \<or> markDate st = [] \<longrightarrow>
        mark_requests (save_ok st) = mark_requests st)"
proof -
  have a: "i \<in> set (absent_ids roster)
      \<longleftrightarrow> (\<exists>s. s \<in> set roster \<and> student_id s = i \<and> status s = ''absent'')"
    by (auto simp: absent_ids_set)
  have b: "(student_id s \<in> set (absent_ids roster) \<longleftrightarrow> status s = ''absent'')
        \<and> (status s = ''present'' \<longrightarrow> student_id s \<notin> set (absent_ids roster))"
    if "distinct (map student_id roster) \<and> s \<in> set roster"
    using absent_ids_distinct [of roster s] that by auto
  have c: "mark_requests (saveMarkAttendance st)
          = mark_requests st
              @ [PostAttendance date sectionId session (absent_ids (markAttendanceStudents st))]
        \<and> (markSection st = Some sectionId \<and> markDate st = date \<and> markSession st = session \<longrightarrow>
             mark_requests (save_ok (saveMarkAttendance st))
               = mark_requests st
                   @ [PostAttendance date sectionId session (absent_ids (markAttendanceStudents st)),
                      GetAttendance date sectionId session])"
    if "currentMarkSectionId st = Some sectionId \<and> currentMarkDate st = Some date
        \<and> currentMarkSession st = Some session
        \<and> sectionId \<noteq> 0 \<and> date \<noteq> [] \<and> session \<noteq> []"
    using that by (simp add: saveMarkAttendance_def save_ok_def loadMarkAttendance_def toast_def)
  have d: "saveMarkAttendance st = st"
    if "\<not> valid_key (currentMarkSectionId st) (currentMarkDate st) (currentMarkSession st)"
    using that
    by (auto simp: valid_key_def falsy_id_def falsy_str_def saveMarkAttendance_def
        split: option.splits)
  have e: "mark_requests (save_ok st)
          = mark_requests st @ [GetAttendance (markDate st) formSection (markSession st)]"
    if "markSection st = Some formSection \<and> formSection \<noteq> 0 \<and> markDate st \<noteq> []"
    using that by (simp add: save_ok_def loadMarkAttendance_def toast_def)
  have f: "mark_requests (save_ok st) = mark_requests st"
    if "falsy_id (markSection st) \<or> markDate st = []"
    using that
    by (auto simp: save_ok_def loadMarkAttendance_def toast_def falsy_id_def split: option.splits)
  from a b c d e f show ?thesis by blast
qed

text \<open>
  Claim C5 at a roster of three students, one of them absent, saved and reloaded with the
  controls unchanged.
\<close>

theorem C5_save_sends_absent_ids_and_reloads_form_key_witness:
  "mark_requests (save_ok (saveMarkAttendance demo_ready))
     = [GetAttendance ''2024-03-01'' 1 ''morning'',
        PostAttendance ''2024-03-01'' 1 ''morning'' [12],
        GetAttendance ''2024-03-01'' 1 ''morning'']
   \<and> distinct (map student_id (markAttendanceStudents demo_ready))
   \<and> set (absent_ids (markAttendanceStudents demo_ready)) = {12}"
proof -
  have k: "currentMarkSectionId demo_ready = Some 1 \<and> currentMarkDate demo_ready = Some ''2024-03-01''
      \<and> currentMarkSession demo_ready = Some ''morning''
      \<and> (1::int) \<noteq> 0 \<and> ''2024-03-01'' \<noteq> [] \<and> ''morning'' \<noteq> []
      \<and> markSection demo_ready = Some 1 \<and> markDate demo_ready = ''2024-03-01''
      \<and> markSession demo_ready = ''morning''"
    by code_simp
  have r: "mark_requests demo_ready = [GetAttendance ''2024-03-01'' 1 ''morning'']" by code_simp
  have a: "absent_ids (markAttendanceStudents demo_ready) = [12]" by code_simp
  have d: "distinct (map student_id (markAttendanceStudents demo_ready))" by code_simp
  from C5_save_sends_absent_ids_and_reloads_form_key
    [of 12 "markAttendanceStudents demo_ready" "hd (markAttendanceStudents demo_ready)"
      demo_ready 1 "''2024-03-01''" "''morning''" 1]
    k r a d
  show ?thesis by simp
qed

text \<open>
  Claim C5 as it is worded promises the reload for the key that was saved. The roster of
  section 1 is loaded and saved; while the save is on its way the section control is set to
  section 2; the answer arrives. The save went to section 1, the reload that follows asks
  for section 2, which is what the control shows.
\<close>

theorem C5_reload_other_key_counterexample:
  "mark_requests (mark_run [ClickSave, ChangeSection (Some 2), SaveOk] demo_ready)
     = [GetAttendance ''2024-03-01'' 1 ''morning'',
        PostAttendance ''2024-03-01'' 1 ''morning'' [12],
        GetAttendance ''2024-03-01'' 2 ''morning'']
   \<and> \<not> markSaveBtn_disabled demo_ready"
  by code_simp

text \<open>
  Claim C6. After a load and any sequence of toggles, bulk settings and filter inputs, the
  summary on the page has total = present + absent, where total is the length of the whole
  roster and present the number of its entries with status present (and absent the number
  with status absent, when the loaded statuses are present or absent only). A filter input
  changes the search text and the rows displayed and nothing else: the roster, with every
  status, and the summary stay as they are.
\<close>

theorem C6_summary_total_present_absent:
  "(list_all toggle_or_bulk events \<longrightarrow>
      (let st' = mark_run events (load_ok students st);
           roster = markAttendanceStudents st'
       in sum_total (markSummary st') = sum_present (markSummary st') + sum_absent (markSummary st')
          \<and> sum_total (markSummary st') = int (length roster)
          \<and> sum_present (markSummary st')
              = int (length (filter (\<lambda>s. status s = ''present'') roster))
          \<and> (two_valued (markAttendanceStudents (load_ok students st)) \<longrightarrow>
               sum_absent (markSummary st')
                 = int (length (filter (\<lambda>s. status s = ''absent'') roster)))))
   \<and> mark_step (SearchInput v) st
        = st\<lparr>markSearch := v, markTbody := markTbody (mark_step (SearchInput v) st)\<rparr>
   \<and> markAttendanceStudents (mark_step (SearchInput v) st) = markAttendanceStudents st
   \<and> markSummary (mark_step (SearchInput v) st) = markSummary st
   \<and> markTbody (mark_step (SearchInput v) st)
        = map (\<lambda>s. s\<lparr>status := (if status s = [] then ''present'' else status s)\<rparr>)
            (if js_lower v = [] then markAttendanceStudents st
             else filter (mark_row_shown (js_lower v)) (markAttendanceStudents st))"
proof -
  let ?st0 = "load_ok students st"
  have run: "(let st' = mark_run events ?st0; roster = markAttendanceStudents st'
       in sum_total (markSummary st') = sum_present (markSummary st') + sum_absent (markSummary st')
          \<and> sum_total (markSummary st') = int (length roster)
          \<and> sum_present (markSummary st')
              = int (length (filter (\<lambda>s. status s = ''present'') roster))
          \<and> (two_valued (markAttendanceStudents ?st0) \<longrightarrow>
               sum_absent (markSummary st')
                 = int (length (filter (\<lambda>s. status s = ''absent'') roster))))"
    if ev: "list_all toggle_or_bulk events"
  proof -
    let ?st' = "mark_run events ?st0"
    have s: "markSummary ?st' = summary_of (markAttendanceStudents ?st')"
      by (rule edit_run_summary [OF ev load_ok_summary])
    have ab: "sum_absent (markSummary ?st')
        = int (length (filter (\<lambda>s. status s = ''absent'') (markAttendanceStudents ?st')))"
      if "two_valued (markAttendanceStudents ?st0)"
      using two_valued_absent [OF edit_run_two_valued [OF ev that]] s
      by (simp add: summary_of_def)
    from s ab show ?thesis by (simp add: Let_def summary_of_def)
  qed
  have f1: "mark_step (SearchInput v) st
        = st\<lparr>markSearch := v, markTbody := markTbody (mark_step (SearchInput v) st)\<rparr>"
    by (simp add: filterMarkTable_def renderMarkTable_def Let_def)
  have f2: "markAttendanceStudents (mark_step (SearchInput v) st) = markAttendanceStudents st"
    by (simp add: filterMarkTable_def renderMarkTable_fields)
  have f3: "markSummary (mark_step (SearchInput v) st) = markSummary st"
    by (simp add: filterMarkTable_def renderMarkTable_fields)
  have f4: "markTbody (mark_step (SearchInput v) st)
        = map (\<lambda>s. s\<lparr>status := (if status s = [] then ''present'' else status s)\<rparr>)
            (if js_lower v = [] then markAttendanceStudents st
             else filter (mark_row_shown (js_lower v)) (markAttendanceStudents st))"
    by (simp add: filterMarkTable_def renderMarkTable_def Let_def)
  from run f1 f2 f3 f4 show ?thesis by blast
qed

text \<open>
  Claim C6 at a roster of three students: toggles, a filter that shows one row, and a bulk
  setting.
\<close>

theorem C6_summary_total_present_absent_witness:
  "list_all toggle_or_bulk [ClickToggle 0, SearchInput ''bal'', ClickToggle 0, ClickAllAbsent, ClickToggle 0]
   \<and> two_valued (markAttendanceStudents (load_ok demo_students (mark_initial ''2024-03-01'')))
   \<and> markSummary (mark_run [ClickToggle 0, SearchInput ''bal'', ClickToggle 0, ClickAllAbsent, ClickToggle 0]
        (load_ok demo_students (mark_initial ''2024-03-01'')))
      = \<lparr>sum_total = 3, sum_present = 1, sum_absent = 2\<rparr>
   \<and> map student_id (markTbody (mark_step (SearchInput ''bal'')
        (load_ok demo_students (mark_initial ''2024-03-01'')))) = [12]"
proof -
  let ?ev = "[ClickToggle 0, SearchInput ''bal'', ClickToggle 0, ClickAllAbsent, ClickToggle 0]"
  let ?st = "mark_initial ''2024-03-01''"
  have h1: "list_all toggle_or_bulk ?ev" by code_simp
  have h2: "two_valued (markAttendanceStudents (load_ok demo_students ?st))" by code_simp
  have v: "markSummary (mark_run ?ev (load_ok demo_students ?st))
      = \<lparr>sum_total = 3, sum_present = 1, sum_absent = 2\<rparr>" by code_simp
  have t: "map student_id (markTbody (mark_step (SearchInput ''bal'') (load_ok demo_students ?st)))
      = [12]" by code_simp
  from C6_summary_total_present_absent [of ?ev demo_students ?st "''bal''"] h1 h2 v t
  show ?thesis by simp
qed

text \<open>
  Claim C7. The handler of a failed save resets the save button and shows the error, and
  changes nothing else. After a save and its failure the roster with every status, the
  selected key, the editing flag, the controls and the displayed rows are as before the
  save; the save button is enabled again, the error message is shown, and no further
  request is sent.
\<close>

theorem C7_failed_save_keeps_state:
  "save_failed message st
     = st\<lparr>markSaveBtn_saving := False, markSaveBtn_disabled := False,
          mark_toasts := mark_toasts st @ [(message, ''error'')]\<rparr>
   \<and> (let st1 = mark_step ClickSave st; st2 = mark_step (SaveFailed message) st1
      in markAttendanceStudents st2 = markAttendanceStudents st
         \<and> map status (markAttendanceStudents st2) = map status (markAttendanceStudents st)
         \<and> currentMarkSectionId st2 = currentMarkSectionId st
         \<and> currentMarkDate st2 = currentMarkDate st
         \<and> currentMarkSession st2 = currentMarkSession st
         \<and> markEditingMode st2 = markEditingMode st
         \<and> markSection st2 = markSection st \<and> markDate st2 = markDate st
         \<and> markSession st2 = markSession st
         \<and> markTbody st2 = markTbody st \<and> markSummary st2 = markSummary st
         \<and> \<not> markSaveBtn_disabled st2 \<and> \<not> markSaveBtn_saving st2
         \<and> mark_toasts st2 = mark_toasts st @ [(message, ''error'')]
         \<and> mark_requests st2 = mark_requests st1)"
  by (simp add: save_failed_def toast_def saveMarkAttendance_def Let_def
      split: option.splits)

section \<open>Claims about the list pages\<close>

lemma sort_run_page:
  "list_all is_sort events \<Longrightarrow> studentsPage (fold students_step events st) = studentsPage st"
proof (induction events arbitrary: st)
  case Nil
  show ?case by simp
next
  case (Cons e events)
  from Cons.prems obtain v where e: "e = StudentsSort v"
    by (cases e) (auto simp: is_sort_def)
  from Cons.prems Cons.IH [of "students_step e st"] show ?case
    by (simp add: e loadStudentsList_def)
qed

text \<open>
  Claim C8. On the students page a search input, a change of the section filter and a change
  of the page size each set the page to 1, and the request they send carries page 1; a click
  on a sort column keeps the page, and so does any sequence of such clicks. On the records
  page every change of a filter control, of the search text or of the page size sets the
  page to 1 before the request, if one is sent, is built.
\<close>

theorem C8_filters_reset_page_sort_keeps_it:
  "studentsPage (students_step (StudentsSearch v) st) = 1
   \<and> students_requests (students_step (StudentsSearch v) st)
       = students_requests st
           @ [GetStudents 1 (studentsPerPage st) (studentsSortBy st)
                (if falsy_id (studentsSectionId st) then None else studentsSectionId st)
                (if v = [] then None else Some v)]
   \<and> studentsPage (students_step (StudentsSection sec) st) = 1
   \<and> students_requests (students_step (StudentsSection sec) st)
       = students_requests st
           @ [GetStudents 1 (studentsPerPage st) (studentsSortBy st)
                (if falsy_id sec then None else sec)
                (if studentsSearch st = [] then None else Some (studentsSearch st))]
   \<and> studentsPage (students_step (StudentsPerPage pp) st) = 1
   \<and> students_requests (students_step (StudentsPerPage pp) st)
       = students_requests st
           @ [GetStudents 1 (per_page_value pp) (studentsSortBy st)
                (if falsy_id (studentsSectionId st) then None else studentsSectionId st)
                (if studentsSearch st = [] then None else Some (studentsSearch st))]
   \<and> studentsPage (students_step (StudentsSort col) st) = studentsPage st
   \<and> students_requests (students_step (StudentsSort col) st)
       = students_requests st
           @ [GetStudents (studentsPage st) (studentsPerPage st) col
                (if falsy_id (studentsSectionId st) then None else studentsSectionId st)
                (if studentsSearch st = [] then None else Some (studentsSearch st))]
   \<and> (list_all is_sort events \<longrightarrow>
        studentsPage (fold students_step events st) = studentsPage st)
   \<and> (e \<in> set [RecordsSection sec, RecordsDate d, RecordsSession d, RecordsSearch v,
                 RecordsPerPage pp] \<longrightarrow>
        recordsPage (records_step e rs) = 1
        \<and> (records_requests (records_step e rs) = records_requests rs
            \<or> (\<exists>s dt sn n q. records_requests (records_step e rs)
                  = records_requests rs @ [GetRecords s dt sn 1 n q])))
   \<and> recordsPage (records_step RecordsLoadClick rs) = recordsPage rs"
proof -
  have rec: "recordsPage (records_step e rs) = 1
        \<and> (records_requests (records_step e rs) = records_requests rs
            \<or> (\<exists>s dt sn n q. records_requests (records_step e rs)
                  = records_requests rs @ [GetRecords s dt sn 1 n q]))"
    if "e \<in> set [RecordsSection sec, RecordsDate d, RecordsSession d, RecordsSearch v,
                 RecordsPerPage pp]"
    using that by (auto simp: loadRecords_def split: option.splits)
  have lc: "recordsPage (records_step RecordsLoadClick rs) = recordsPage rs"
    by (simp add: loadRecords_def split: option.splits)
  from rec lc sort_run_page [of events st] show ?thesis
    by (simp add: loadStudentsList_def)
qed

text \<open>
  Claim C8 at two sort clicks on page 3 of the students, and at a search input on page 3 of
  the records.
\<close>

theorem C8_filters_reset_page_sort_keeps_it_witness:
  "list_all is_sort [StudentsSort ''name'', StudentsSort ''roll_no'']
   \<and> studentsPage (fold students_step [StudentsSort ''name'', StudentsSort ''roll_no'']
        (students_initial\<lparr>studentsPage := 3\<rparr>)) = 3
   \<and> recordsPage (records_step (RecordsSearch ''a'')
        ((records_initial ''2024-03-01'')\<lparr>recordsPage := 3, recordsSection_value := Some 1\<rparr>)) = 1
   \<and> records_requests (records_step (RecordsSearch ''a'')
        ((records_initial ''2024-03-01'')\<lparr>recordsPage := 3, recordsSection_value := Some 1\<rparr>))
       = [GetRecords 1 ''2024-03-01'' ''morning'' 1 25 (Some ''a'')]"
proof -
  let ?ev = "[StudentsSort ''name'', StudentsSort ''roll_no'']"
  let ?rs = "(records_initial ''2024-03-01'')\<lparr>recordsPage := 3, recordsSection_value := Some 1\<rparr>"
  have h: "list_all is_sort ?ev" by code_simp
  have m: "RecordsSearch ''a'' \<in> set [RecordsSection None, RecordsDate [], RecordsSession [],
      RecordsSearch ''a'', RecordsPerPage PerPage10]" by simp
  have p: "studentsPage (students_initial\<lparr>studentsPage := 3\<rparr>) = 3" by simp
  have r: "records_requests (records_step (RecordsSearch ''a'') ?rs)
       = [GetRecords 1 ''2024-03-01'' ''morning'' 1 25 (Some ''a'')]" by code_simp
  from C8_filters_reset_page_sort_keeps_it
    [where v = "''a''" and st = "students_initial\<lparr>studentsPage := 3\<rparr>" and sec = None
      and pp = PerPage10 and col = "''x''" and events = ?ev and e = "RecordsSearch ''a''"
      and d = "[]" and rs = ?rs]
    h m p r
  show ?thesis by simp
qed

text \<open>
  Claim C9. The handler of the page buttons guards "Previous" with page > 1 and "Next" with
  page < totalPages, so that both do nothing at the ends: with 30 students in pages of 10,
  "Next" on page 3 of 3 keeps page 3, and "Previous" on page 1 keeps page 1. But totalPages
  is the number computed when the buttons were rendered, and the buttons are not rendered
  anew when the page size changes or a request fails. With 30 students shown in pages of 25
  the page size is set to 50 and the request fails: the page is 1, the last page of 30
  students in pages of 50, yet "Next" on the buttons still on screen moves to page 2. Without
  any failure, a click on "Next" before the new answer is rendered ends on page 2 of 1, with
  no rows and no buttons. The records page does the same.
\<close>

theorem C9_next_on_stale_buttons_passes_last_page:
  "studentsPagination demo_students_page3 = Some 3
   \<and> studentsPage demo_students_page3 = 3
   \<and> total_pages (studentsTotal demo_students_page3) (studentsPerPage demo_students_page3) = 3
   \<and> studentsPage (students_page_click Next demo_students_page3) = 3
   \<and> studentsPage (students_page_click Previous (demo_students_page3\<lparr>studentsPage := 1\<rparr>)) = 1
   \<and> studentsPage demo_students_stale = 1
   \<and> studentsTotal demo_students_stale = 30
   \<and> studentsPerPage demo_students_stale = 50
   \<and> total_pages (studentsTotal demo_students_stale) (studentsPerPage demo_students_stale) = 1
   \<and> \<lceil>real_of_int 30 / real_of_int 50\<rceil> = 1
   \<and> studentsPagination demo_students_stale = Some 2
   \<and> studentsPage (students_page_click Next demo_students_stale) = 2
   \<and> studentsPage (students_page_click Previous demo_students_stale) = 1
   \<and> studentsPage demo_students_past_end = 2
   \<and> total_pages (studentsTotal demo_students_past_end) (studentsPerPage demo_students_past_end) = 1
   \<and> studentsPagination demo_students_past_end = None
   \<and> studentsTbody demo_students_past_end = Rows []
   \<and> recordsPage demo_records_stale = 1
   \<and> total_pages (recordsTotal_shown demo_records_stale) (recordsPerPage demo_records_stale) = 1
   \<and> recordsPagination demo_records_stale = Some 2
   \<and> recordsPage (records_page_click Next demo_records_stale) = 2"
proof -
  have fresh: "studentsPagination demo_students_page3 = Some 3
      \<and> studentsPage demo_students_page3 = 3
      \<and> total_pages (studentsTotal demo_students_page3) (studentsPerPage demo_students_page3) = 3
      \<and> studentsPage (students_page_click Next demo_students_page3) = 3
      \<and> studentsPage (students_page_click Previous (demo_students_page3\<lparr>studentsPage := 1\<rparr>)) = 1"
    by code_simp
  have stale: "studentsPage demo_students_stale = 1
      \<and> studentsTotal demo_students_stale = 30
      \<and> studentsPerPage demo_students_stale = 50
      \<and> total_pages (studentsTotal demo_students_stale) (studentsPerPage demo_students_stale) = 1
      \<and> studentsPagination demo_students_stale = Some 2
      \<and> studentsPage (students_page_click Next demo_students_stale) = 2
      \<and> studentsPage (students_page_click Previous demo_students_stale) = 1"
    by code_simp
  have ceil: "\<lceil>real_of_int 30 / real_of_int 50\<rceil> = 1"
    by (simp add: ceiling_divide_eq_div)
  have past: "studentsPage demo_students_past_end = 2
      \<and> total_pages (studentsTotal demo_students_past_end) (studentsPerPage demo_students_past_end) = 1
      \<and> studentsPagination demo_students_past_end = None
      \<and> studentsTbody demo_students_past_end = Rows []"
    by code_simp
  have recs: "recordsPage demo_records_stale = 1
      \<and> total_pages (recordsTotal_shown demo_records_stale) (recordsPerPage demo_records_stale) = 1
      \<and> recordsPagination demo_records_stale = Some 2
      \<and> recordsPage (records_page_click Next demo_records_stale) = 2"
    by code_simp
  from fresh stale ceil past recs show ?thesis
    by (elim conjE) (intro conjI; assumption)
qed

end
